theory Spec2Isabelle
  imports Main "HOL-Library.Sublist"
begin

section \<open>Characters and strings\<close>

text \<open>
  A JavaScript string is a sequence of UTF-16 code units. The model uses \<^typ>\<open>string\<close>
  (a list of \<^typ>\<open>char\<close>), one \<^typ>\<open>char\<close> per code unit, and so covers the code units
  below 256. The character classes of the regular expressions in \<^verbatim>\<open>src/parsers/index.ts\<close>
  are restricted to that range accordingly.
\<close>

definition newline :: char where
  "newline = CHR 0x0A"

definition dquote :: char where
  "dquote = CHR 0x22"

text \<open>The class \<^verbatim>\<open>\s\<close>: tab, line feed, vertical tab, form feed, carriage return,
  space and the no-break space.\<close>

definition isSpace :: "char \<Rightarrow> bool" where
  "isSpace c = (c = CHR 0x09 \<or> c = CHR 0x0A \<or> c = CHR 0x0B \<or> c = CHR 0x0C \<or> c = CHR 0x0D
     \<or> c = CHR 0x20 \<or> c = CHR 0xA0)"

text \<open>The class \<^verbatim>\<open>\d\<close>.\<close>

definition isDigit :: "char \<Rightarrow> bool" where
  "isDigit c = (c \<in> set ''0123456789'')"

text \<open>The class \<^verbatim>\<open>\w\<close>.\<close>

definition isWord :: "char \<Rightarrow> bool" where
  "isWord c = (c \<in> set ''abcdefghijklmnopqrstuvwxyzABCDEFGHIJKLMNOPQRSTUVWXYZ0123456789_'')"

text \<open>The class \<^verbatim>\<open>[ \t]\<close>.\<close>

definition isBlank :: "char \<Rightarrow> bool" where
  "isBlank c = (c = CHR 0x20 \<or> c = CHR 0x09)"

text \<open>Line terminators: where \<^verbatim>\<open>^\<close> matches under the \<^verbatim>\<open>m\<close> flag.\<close>

definition isLineTerminator :: "char \<Rightarrow> bool" where
  "isLineTerminator c = (c = CHR 0x0A \<or> c = CHR 0x0D)"

text \<open>\<^verbatim>\<open>s.replace(/<br ?\/?>/g, '\n')\<close>: the matched strings are \<^verbatim>\<open><br>\<close>, \<^verbatim>\<open><br >\<close>,
  \<^verbatim>\<open><br/>\<close> and \<^verbatim>\<open><br />\<close>.\<close>

fun brToNewline :: "string \<Rightarrow> string" where
  "brToNewline [] = []"
| "brToNewline (c # cs) =
     (if prefix ''<br>'' (c # cs) then newline # brToNewline (drop 3 cs)
      else if prefix ''<br >'' (c # cs) then newline # brToNewline (drop 4 cs)
      else if prefix ''<br/>'' (c # cs) then newline # brToNewline (drop 4 cs)
      else if prefix ''<br />'' (c # cs) then newline # brToNewline (drop 5 cs)
      else c # brToNewline cs)"

section \<open>The DOM consumed by the tree walker\<close>

text \<open>
  A node of the tree returned by the HTML parser: a tag node (\<^verbatim>\<open>type === 'tag'\<close>) with its
  name, its attributes and its children, a text node with its data, or a node of any other
  type (comment, directive, CDATA, script, style), of which the code reads the type only.
  The attributes are an association list, looked up with \<^const>\<open>map_of\<close>; a missing
  attribute is \<^verbatim>\<open>undefined\<close>, here \<^const>\<open>None\<close>.
\<close>

datatype node =
    Tag string "(string \<times> string) list" "node list"
  | Text string
  | Other

datatype error = TypeError

section \<open>Output objects\<close>

text \<open>
  The style object of a text run. In the source it is an object on which the keys
  \<^verbatim>\<open>bold\<close>, \<^verbatim>\<open>italic\<close>, \<^verbatim>\<open>strike\<close>, \<^verbatim>\<open>code\<close> are only ever set to \<^verbatim>\<open>true\<close>; a field
  of the record is \<^const>\<open>True\<close> when the key is present. The order in which the keys were
  inserted is not recorded.
\<close>

record style =
  bold :: bool
  italic :: bool
  strike :: bool
  code :: bool

definition noStyle :: style where
  "noStyle = \<lparr>bold = False, italic = False, strike = False, code = False\<rparr>"

text \<open>\<^verbatim>\<open>Object.keys(style).length > 0\<close>\<close>

definition hasKeys :: "style \<Rightarrow> bool" where
  "hasKeys st = (bold st \<or> italic st \<or> strike st \<or> code st)"

text \<open>\<^verbatim>\<open>if (Object.keys(style).length > 0) { textElement.style = { ...style }; }\<close>\<close>

definition attachStyle :: "style \<Rightarrow> style option" where
  "attachStyle st = (if hasKeys st then Some st else None)"

text \<open>
  The inline elements built by \<^verbatim>\<open>parseText\<close>: \<^verbatim>\<open>{type: 'text', text, style?}\<close> and
  \<^verbatim>\<open>{type: 'link', url, style?, text?}\<close>. A \<^verbatim>\<open>url\<close> of \<^verbatim>\<open>undefined\<close> (no \<^verbatim>\<open>href\<close>) and an
  unset \<^verbatim>\<open>text\<close> are \<^const>\<open>None\<close>.
\<close>

datatype element =
    RichText string "style option"
  | Link "string option" "style option" "string option"

datatype listStyle = Bullet | Ordered

text \<open>
  The objects built by \<^verbatim>\<open>parseNode\<close>: the empty object \<^verbatim>\<open>{}\<close>, the four containers with
  their \<^verbatim>\<open>elements\<close>, the image (\<^verbatim>\<open>image_url\<close>, \<^verbatim>\<open>alt_text\<close>, optional \<^verbatim>\<open>title\<close>), the
  header with its plain text, and an inline element appended to a container.
  The \<^verbatim>\<open>indent\<close> of a list is the result of \<^verbatim>\<open>parseInt\<close>: \<^const>\<open>None\<close> is \<^verbatim>\<open>NaN\<close>.
\<close>

datatype block =
    EmptyObj
  | RichTextList listStyle "block list" "int option"
  | RichTextSection "block list"
  | RichTextPreformatted "block list"
  | RichTextQuote "block list"
  | ImageBlock "string option" string "string option"
  | HeaderBlock string
  | Element element

text \<open>What \<^verbatim>\<open>parseNode\<close> returns: one object, or the array of \<^verbatim>\<open>parseText\<close>.\<close>

datatype parsed = Single block | Many "element list"

section \<open>The text run builder: \<^verbatim>\<open>parseText\<close>\<close>

text \<open>The \<^verbatim>\<open>switch (node.name)\<close> of \<^verbatim>\<open>parseText\<close> that sets a flag of the style.\<close>

definition setStyle :: "string \<Rightarrow> style \<Rightarrow> style" where
  "setStyle name st =
     (if name = ''b'' \<or> name = ''strong'' then st\<lparr>bold := True\<rparr>
      else if name = ''i'' \<or> name = ''em'' then st\<lparr>italic := True\<rparr>
      else if name = ''s'' \<or> name = ''del'' then st\<lparr>strike := True\<rparr>
      else if name = ''code'' then st\<lparr>code := True\<rparr>
      else st)"

text \<open>\<^verbatim>\<open>node.data.replace(/<br ?\/?>/g, '\n').replace(/^\s*$/, '')\<close>: without the \<^verbatim>\<open>m\<close> flag
  the second expression matches only a string that is whitespace from start to end.\<close>

definition textData :: "string \<Rightarrow> string" where
  "textData d = (let t = brToNewline d in if list_all isSpace t then [] else t)"

text \<open>
  \<^verbatim>\<open>parseText(node, style)\<close>. The caller always passes a fresh object (\<^verbatim>\<open>{...style}\<close>, or the
  default \<^verbatim>\<open>{}\<close>), so the style is passed by value here; the store-based model below
  (\<open>parseTextS\<close>) keeps the objects and their mutation.
  For an anchor, \<^verbatim>\<open>node.children\<close> is an array and so truthy, also when it is empty; then
  \<^verbatim>\<open>node.children[0]\<close> is \<^verbatim>\<open>undefined\<close> and reading its \<^verbatim>\<open>type\<close> throws a TypeError.
\<close>

fun parseText :: "node \<Rightarrow> style \<Rightarrow> error + element list"
  and parseTextChildren :: "node list \<Rightarrow> style \<Rightarrow> error + element list" where
  "parseText (Tag name attrs cs) st =
     (let st' = setStyle name st in
      if name = ''a'' then
        (case cs of
           [] \<Rightarrow> Inl TypeError
         | c # _ \<Rightarrow> Inr [Link (map_of attrs ''href'') (attachStyle st')
                          (case c of Text d \<Rightarrow> Some d | _ \<Rightarrow> None)])
      else parseTextChildren cs st')"
| "parseText (Text d) st = Inr [RichText (textData d) (attachStyle st)]"
| "parseText Other st = Inr []"
| "parseTextChildren [] st = Inr []"
| "parseTextChildren (c # cs) st =
     (case parseText c st of
        Inl e \<Rightarrow> Inl e
      | Inr ts \<Rightarrow> (case parseTextChildren cs st of
                    Inl e \<Rightarrow> Inl e
                  | Inr us \<Rightarrow> Inr (ts @ us)))"

text \<open>
  The same function with the style objects kept in a store, as the source has them: a
  style is an object at an address (an index of the list), \<^verbatim>\<open>style.bold = true\<close> updates the
  object at the address the call received, and \<^verbatim>\<open>{ ...style }\<close> allocates a copy at a fresh
  address for each recursive call. The result carries the final store.
\<close>

fun parseTextS :: "node \<Rightarrow> nat \<Rightarrow> style list \<Rightarrow> error + (element list \<times> style list)"
  and parseTextChildrenS ::
    "node list \<Rightarrow> nat \<Rightarrow> style list \<Rightarrow> error + (element list \<times> style list)" where
  "parseTextS (Tag name attrs cs) r h =
     (let h1 = h[r := setStyle name (h ! r)] in
      if name = ''a'' then
        (case cs of
           [] \<Rightarrow> Inl TypeError
         | c # _ \<Rightarrow> Inr ([Link (map_of attrs ''href'') (attachStyle (h1 ! r))
                           (case c of Text d \<Rightarrow> Some d | _ \<Rightarrow> None)], h1))
      else parseTextChildrenS cs r h1)"
| "parseTextS (Text d) r h = Inr ([RichText (textData d) (attachStyle (h ! r))], h)"
| "parseTextS Other r h = Inr ([], h)"
| "parseTextChildrenS [] r h = Inr ([], h)"
| "parseTextChildrenS (c # cs) r h =
     (case parseTextS c (length h) (h @ [h ! r]) of
        Inl e \<Rightarrow> Inl e
      | Inr (ts, h') \<Rightarrow> (case parseTextChildrenS cs r h' of
                          Inl e \<Rightarrow> Inl e
                        | Inr (us, h'') \<Rightarrow> Inr (ts @ us, h'')))"

text \<open>The style an element carries; an element without a \<^verbatim>\<open>style\<close> key has no flag.\<close>

definition elementStyle :: "element \<Rightarrow> style" where
  "elementStyle e =
     (case (case e of RichText _ s \<Rightarrow> s | Link _ s _ \<Rightarrow> s) of None \<Rightarrow> noStyle | Some s \<Rightarrow> s)"

text \<open>Every flag of the first style is a flag of the second.\<close>

definition styleLe :: "style \<Rightarrow> style \<Rightarrow> bool" where
  "styleLe a b = ((bold a \<longrightarrow> bold b) \<and> (italic a \<longrightarrow> italic b)
     \<and> (strike a \<longrightarrow> strike b) \<and> (code a \<longrightarrow> code b))"

section \<open>The header leaf builder: \<^verbatim>\<open>parseHeader\<close>\<close>

definition parseHeader :: "node \<Rightarrow> block" where
  "parseHeader n =
     (case n of
        Tag _ _ (Text d # _) \<Rightarrow> if d = [] then EmptyObj else HeaderBlock d
      | _ \<Rightarrow> EmptyObj)"

section \<open>The tree walker: \<^verbatim>\<open>parseNode\<close>\<close>

text \<open>
  \<^verbatim>\<open>parseInt(node.attribs['indent'])\<close>: leading whitespace is skipped, a sign is read, a
  prefix \<^verbatim>\<open>0x\<close> selects radix 16, and the longest run of digits is the value; no digit
  (or an absent attribute, read as the string \<^verbatim>\<open>undefined\<close>) gives \<^verbatim>\<open>NaN\<close>. The value is
  the mathematical integer; the source holds it as a double, exact below \<open>2 ^ 53\<close>.
\<close>

definition digitValue :: "char \<Rightarrow> nat" where
  "digitValue c =
     (if c \<in> set ''0123456789'' then of_char c - 48
      else if c \<in> set ''abcdef'' then of_char c - 87
      else of_char c - 55)"

definition isRadixDigit :: "nat \<Rightarrow> char \<Rightarrow> bool" where
  "isRadixDigit radix c =
     (if radix = 16 then c \<in> set ''0123456789abcdefABCDEF'' else c \<in> set ''0123456789'')"

definition digitsValue :: "nat \<Rightarrow> string \<Rightarrow> nat" where
  "digitsValue radix ds = foldl (\<lambda>a c. a * radix + digitValue c) 0 ds"

definition parseInt :: "string option \<Rightarrow> int option" where
  "parseInt v =
     (case v of
        None \<Rightarrow> None
      | Some s \<Rightarrow>
          (let s1 = dropWhile isSpace s;
               neg = prefix ''-'' s1;
               s2 = (if prefix ''+'' s1 \<or> prefix ''-'' s1 then tl s1 else s1);
               hex = (prefix ''0x'' s2 \<or> prefix ''0X'' s2);
               radix = (if hex then 16 else 10);
               s3 = (if hex then drop 2 s2 else s2);
               ds = takeWhile (isRadixDigit radix) s3
           in if ds = [] then None
              else Some ((if neg then - 1 else 1) * int (digitsValue radix ds))))"

text \<open>The object a container-shaped case of the \<^verbatim>\<open>switch (node.name)\<close> opens; the
  default case leaves the empty object.\<close>

definition initialBlock :: "string \<Rightarrow> (string \<times> string) list \<Rightarrow> block" where
  "initialBlock name attrs =
     (if name = ''ul'' \<or> name = ''ol'' then
        RichTextList (if name = ''ul'' then Bullet else Ordered) []
          (parseInt (map_of attrs ''indent''))
      else if name = ''li'' then RichTextSection []
      else if name = ''pre'' then RichTextPreformatted []
      else if name = ''blockquote'' then RichTextQuote []
      else if name = ''img'' then
        ImageBlock (map_of attrs ''src'')
          (case map_of attrs ''alt'' of None \<Rightarrow> [] | Some a \<Rightarrow> a)
          (case map_of attrs ''title'' of
             None \<Rightarrow> None
           | Some t \<Rightarrow> if t = [] then None else Some t)
      else if name = ''p'' then RichTextSection []
      else EmptyObj)"

definition inlineTags :: "string list" where
  "inlineTags = [''b'', ''strong'', ''i'', ''em'', ''s'', ''del'', ''code'', ''a'']"

definition headerTags :: "string list" where
  "headerTags = [''h1'', ''h2'', ''h3'', ''h4'', ''h5'', ''h6'']"

text \<open>\<^verbatim>\<open>Object.keys(element).length !== 0\<close>\<close>

definition nonEmpty :: "block \<Rightarrow> bool" where
  "nonEmpty b = (b \<noteq> EmptyObj)"

text \<open>What a child's result pushes: the object itself, or the elements of the array.\<close>

definition items :: "parsed \<Rightarrow> block list" where
  "items r = (case r of Single b \<Rightarrow> [b] | Many ts \<Rightarrow> map Element ts)"

text \<open>The body of the loop over the children: when the block has the key \<^verbatim>\<open>elements\<close>,
  push the child's result and filter the empty objects out; otherwise nothing.\<close>

fun appendChild :: "block \<Rightarrow> parsed \<Rightarrow> block" where
  "appendChild (RichTextList s es i) r = RichTextList s (filter nonEmpty (es @ items r)) i"
| "appendChild (RichTextSection es) r = RichTextSection (filter nonEmpty (es @ items r))"
| "appendChild (RichTextPreformatted es) r = RichTextPreformatted (filter nonEmpty (es @ items r))"
| "appendChild (RichTextQuote es) r = RichTextQuote (filter nonEmpty (es @ items r))"
| "appendChild b r = b"

fun parseNode :: "node \<Rightarrow> error + parsed"
  and parseChildren :: "block \<Rightarrow> node list \<Rightarrow> error + block" where
  "parseNode (Tag name attrs cs) =
     (if name \<in> set inlineTags then
        (case parseText (Tag name attrs cs) noStyle of
           Inl e \<Rightarrow> Inl e
         | Inr ts \<Rightarrow> Inr (Many ts))
      else if name \<in> set headerTags then Inr (Single (parseHeader (Tag name attrs cs)))
      else
        (case parseChildren (initialBlock name attrs) cs of
           Inl e \<Rightarrow> Inl e
         | Inr b \<Rightarrow> Inr (Single b)))"
| "parseNode (Text d) =
     (case parseText (Text d) noStyle of
        Inl e \<Rightarrow> Inl e
      | Inr ts \<Rightarrow> Inr (Many ts))"
| "parseNode Other = Inr (Single EmptyObj)"
| "parseChildren b [] = Inr b"
| "parseChildren b (c # cs) =
     (case parseNode c of
        Inl e \<Rightarrow> Inl e
      | Inr r \<Rightarrow> parseChildren (appendChild b r) cs)"

section \<open>The entry point: \<^verbatim>\<open>parseHtml\<close>\<close>

text \<open>The \<^verbatim>\<open>text\<close> of an element of the array, \<^const>\<open>None\<close> when it is unset.\<close>

definition elementText :: "element \<Rightarrow> string option" where
  "elementText e = (case e of RichText t _ \<Rightarrow> Some t | Link _ _ t \<Rightarrow> t)"

text \<open>\<^verbatim>\<open>/^(?!\n\s*$).*/.test(text)\<close>: the lookahead fails exactly on a line feed followed
  by whitespace up to the end of the string, and \<^verbatim>\<open>.*\<close> matches anywhere.\<close>

definition regexTest :: "string \<Rightarrow> bool" where
  "regexTest t = (case t of [] \<Rightarrow> True | c # r \<Rightarrow> \<not> (c = newline \<and> list_all isSpace r))"

text \<open>\<^verbatim>\<open>block.text && regex.test(block.text)\<close>: an unset or empty text is falsy.\<close>

definition keepTopLevel :: "element \<Rightarrow> bool" where
  "keepTopLevel e =
     (case elementText e of None \<Rightarrow> False | Some t \<Rightarrow> (if t = [] then False else regexTest t))"

text \<open>What one node of the body pushes onto \<^verbatim>\<open>blocks\<close>.\<close>

definition pushed :: "parsed \<Rightarrow> block list" where
  "pushed r = (case r of Single b \<Rightarrow> [b] | Many ts \<Rightarrow> map Element (filter keepTopLevel ts))"

text \<open>The \<^verbatim>\<open>forEach\<close> over \<^verbatim>\<open>body.children\<close>: the list \<^verbatim>\<open>blocks\<close> handed to \<^verbatim>\<open>blockBuilder\<close>.\<close>

fun collectBlocks :: "node list \<Rightarrow> error + block list" where
  "collectBlocks [] = Inr []"
| "collectBlocks (n # ns) =
     (case parseNode n of
        Inl e \<Rightarrow> Inl e
      | Inr r \<Rightarrow> (case collectBlocks ns of
                   Inl e \<Rightarrow> Inl e
                 | Inr bs \<Rightarrow> Inr (pushed r @ bs)))"

text \<open>\<^verbatim>\<open>DomUtils.findAll\<close>: the nodes that satisfy the test, in document order.\<close>

fun findAll :: "(node \<Rightarrow> bool) \<Rightarrow> node list \<Rightarrow> node list" where
  "findAll t [] = []"
| "findAll t (Tag name attrs cs # ns) =
     (if t (Tag name attrs cs) then [Tag name attrs cs] else []) @ findAll t cs @ findAll t ns"
| "findAll t (n # ns) = findAll t ns"

definition isBody :: "node \<Rightarrow> bool" where
  "isBody n = (case n of Tag name _ _ \<Rightarrow> name = ''body'' | _ \<Rightarrow> False)"

text \<open>\<^verbatim>\<open>(findDomElementsByTagName(dom.children, 'body')[0] || dom).children\<close>\<close>

definition bodyChildren :: "node list \<Rightarrow> node list" where
  "bodyChildren ns = (case findAll isBody ns of Tag _ _ cs # _ \<Rightarrow> cs | _ \<Rightarrow> ns)"

section \<open>The normalizer: \<^verbatim>\<open>compressHTML\<close>\<close>

text \<open>The first occurrence of a string: what stands before it and what follows it.\<close>

fun findSub :: "string \<Rightarrow> string \<Rightarrow> (string \<times> string) option" where
  "findSub needle [] = (if needle = [] then Some ([], []) else None)"
| "findSub needle (c # cs) =
     (if prefix needle (c # cs) then Some ([], drop (length needle) (c # cs))
      else (case findSub needle cs of
              None \<Rightarrow> None
            | Some (b, a) \<Rightarrow> Some (c # b, a)))"

text \<open>The decimal numeral of an array index, as a template literal prints it, and the
  value \<^verbatim>\<open>parseInt\<close> reads from a run of decimal digits.\<close>

fun showNat :: "nat \<Rightarrow> string" where
  "showNat n =
     (if n < 10 then [char_of (48 + n)] else showNat (n div 10) @ [char_of (48 + n mod 10)])"

declare showNat.simps [simp del]

definition decimalValue :: "string \<Rightarrow> nat" where
  "decimalValue ds = digitsValue 10 ds"

text \<open>\<^verbatim>\<open>content.replace(/^\n/, '')\<close>\<close>

definition stripLeadingNewline :: "string \<Rightarrow> string" where
  "stripLeadingNewline s = (case s of [] \<Rightarrow> [] | c # r \<Rightarrow> if c = newline then r else s)"

text \<open>
  The first pass, \<^verbatim>\<open>html.replace(/([ \t]*)<pre>([\s\S]*?)<\/pre>/g, ...)\<close>. A match starts
  at the run of spaces and tabs that ends at the first \<^verbatim>\<open><pre>\<close> and runs to the first
  \<^verbatim>\<open></pre>\<close> after it; when no \<^verbatim>\<open></pre>\<close> follows, nothing matches from there on. The match
  is replaced by \<^verbatim>\<open><pre>i</pre>\<close> with \<open>i\<close> the index of the pushed entry. The arrays
  \<^verbatim>\<open>preTags\<close> and \<^verbatim>\<open>preLeadingSpaces\<close> grow together: they are one list of pairs here
  (content, leading spaces). The number is the length of the arrays so far.
\<close>

function extractPre :: "nat \<Rightarrow> string \<Rightarrow> string \<times> (string \<times> string) list" where
  "extractPre n s =
     (case findSub ''<pre>'' s of
        None \<Rightarrow> (s, [])
      | Some (front, rest) \<Rightarrow>
          (case findSub ''</pre>'' rest of
             None \<Rightarrow> (s, [])
           | Some (content, back) \<Rightarrow>
               (let (out, ps) = extractPre (Suc n) back
                in (rev (dropWhile isBlank (rev front)) @ ''<pre>'' @ showNat n @ ''</pre>'' @ out,
                    (stripLeadingNewline content, rev (takeWhile isBlank (rev front))) # ps))))"
  by pat_completeness auto

lemma findSub_split: "findSub needle s = Some (b, a) \<Longrightarrow> s = b @ needle @ a"
proof (induction s arbitrary: b)
  case Nil
  then show ?case by (simp split: if_splits)
next
  case (Cons c cs)
  show ?case
  proof (cases "prefix needle (c # cs)")
    case True
    then obtain zs where zs: "c # cs = needle @ zs"
      by (auto simp: prefix_def)
    from True Cons.prems have "b = []" and "a = drop (length needle) (c # cs)"
      by simp_all
    with zs show ?thesis by simp
  next
    case False
    with Cons.prems obtain b' where f: "findSub needle cs = Some (b', a)" and b: "b = c # b'"
      by (auto split: option.splits)
    from Cons.IH [OF f] b show ?thesis by simp
  qed
qed

termination extractPre
  by (relation "measure (\<lambda>(n, s). length s)") (auto dest!: findSub_split)

declare extractPre.simps [simp del]

lemma length_tl_dropWhile_le: "length (tl (dropWhile P xs)) \<le> length xs"
  by (induction xs) auto

lemma length_dropWhile_less_Suc [termination_simp]:
  "length (dropWhile P xs) < Suc (length xs)"
  by (simp add: length_dropWhile_le le_imp_less_Suc)

lemma length_drop_dropWhile_less_Suc [termination_simp]:
  "length (dropWhile P (drop n xs)) - k < Suc (length xs)"
proof -
  have "length (dropWhile P (drop n xs)) \<le> length (drop n xs)"
    by (rule length_dropWhile_le)
  then show ?thesis by simp
qed

lemma length_tl_dropWhile_drop_less_Suc [termination_simp]:
  "length (tl (dropWhile P (drop n xs))) < Suc (length xs)"
proof -
  have "length (tl (dropWhile P (drop n xs))) \<le> length (drop n xs)"
    by (rule length_tl_dropWhile_le)
  then show ?thesis by simp
qed

lemma length_drop_dropWhile_dropWhile_less_Suc [termination_simp]:
  "length (dropWhile P (drop n (dropWhile Q xs))) - k < Suc (length xs)"
proof -
  have "length (dropWhile P (drop n (dropWhile Q xs))) \<le> length (drop n (dropWhile Q xs))"
    by (rule length_dropWhile_le)
  also have "\<dots> \<le> length (dropWhile Q xs)" by simp
  also have "\<dots> \<le> length xs" by (rule length_dropWhile_le)
  finally show ?thesis by simp
qed

text \<open>
  The second pass, \<^verbatim>\<open>html.replace(/<(\w+)([^>]*)>/g, ...)\<close>: at a \<^verbatim>\<open><\<close> followed by a word
  character, with a \<^verbatim>\<open>>\<close> somewhere after it, the tag name is the longest run of word
  characters and the attributes are everything up to the first \<^verbatim>\<open>>\<close>; the attributes are
  pushed and the tag is replaced by \<^verbatim>\<open><name data-tag-attr="i">\<close>.
\<close>

definition attrMarker :: string where
  "attrMarker = '' data-tag-attr='' @ [dquote]"

function extractAttrs :: "nat \<Rightarrow> string \<Rightarrow> string \<times> string list" where
  "extractAttrs n [] = ([], [])"
| "extractAttrs n (c # cs) =
     (if c = CHR ''<'' \<and> takeWhile isWord cs \<noteq> [] \<and> CHR ''>'' \<in> set cs then
        (let (out, atts) =
               extractAttrs (Suc n) (tl (dropWhile (\<lambda>x. x \<noteq> CHR ''>'') (dropWhile isWord cs)))
         in (''<'' @ takeWhile isWord cs @ attrMarker @ showNat n @ [dquote] @ ''>'' @ out,
             takeWhile (\<lambda>x. x \<noteq> CHR ''>'') (dropWhile isWord cs) # atts))
      else (let (out, atts) = extractAttrs n cs in (c # out, atts)))"
  by pat_completeness auto

termination extractAttrs
proof (relation "measure (\<lambda>(n, s). length s)")
  show "wf (measure (\<lambda>(n, s). length s))" by simp
next
  fix n :: nat and c :: char and cs :: string
  have "length (tl (dropWhile (\<lambda>x. x \<noteq> CHR ''>'') (dropWhile isWord cs)))
      \<le> length (dropWhile isWord cs)"
    by (rule length_tl_dropWhile_le)
  also have "\<dots> \<le> length cs" by (rule length_dropWhile_le)
  finally show "((Suc n, tl (dropWhile (\<lambda>x. x \<noteq> CHR ''>'') (dropWhile isWord cs))), n, c # cs)
      \<in> measure (\<lambda>(n, s). length s)"
    by simp
next
  fix n :: nat and c :: char and cs :: string
  show "((n, cs), n, c # cs) \<in> measure (\<lambda>(n, s). length s)" by simp
qed

text \<open>The third pass, \<^verbatim>\<open>html.replace(/\n[\n ]*/g, '')\<close>.\<close>

fun removeNewlines :: "string \<Rightarrow> string" where
  "removeNewlines [] = []"
| "removeNewlines (c # cs) =
     (if c = newline then removeNewlines (dropWhile (\<lambda>x. x = newline \<or> x = CHR '' '') cs)
      else c # removeNewlines cs)"

text \<open>
  The fourth pass, \<^verbatim>\<open>html.replace(/<(\w+) data-tag-attr="(\d+)">/g, ...)\<close>, puts
  \<^verbatim>\<open>tagAttributes[parseInt(index)]\<close> back; an index beyond the array reads \<^verbatim>\<open>undefined\<close>,
  which the template literal prints as the word.
\<close>

fun restoreAttrs :: "string list \<Rightarrow> string \<Rightarrow> string" where
  "restoreAttrs atts [] = []"
| "restoreAttrs atts (c # cs) =
     (let name = takeWhile isWord cs;
          r = dropWhile isWord cs;
          r2 = drop (length attrMarker) r;
          idx = takeWhile isDigit r2;
          r3 = dropWhile isDigit r2
      in if c = CHR ''<'' \<and> name \<noteq> [] \<and> prefix attrMarker r \<and> idx \<noteq> []
            \<and> prefix (dquote # ''>'') r3 then
           ''<'' @ name
             @ (if decimalValue idx < length atts then atts ! decimalValue idx else ''undefined'')
             @ ''>'' @ restoreAttrs atts (drop 2 r3)
         else c # restoreAttrs atts cs)"

text \<open>\<^verbatim>\<open>content.replace(new RegExp('^' + leadingSpaces, 'mg'), '')\<close>: the leading spaces are
  removed at the start of the content and after every line terminator, where they stand.\<close>

fun stripAfterTerminators :: "string \<Rightarrow> string \<Rightarrow> string" where
  "stripAfterTerminators l [] = []"
| "stripAfterTerminators l (c # cs) =
     c # (if isLineTerminator c \<and> prefix l cs then stripAfterTerminators l (drop (length l) cs)
          else stripAfterTerminators l cs)"

definition stripIndent :: "string \<Rightarrow> string \<Rightarrow> string" where
  "stripIndent l s =
     (if prefix l s then stripAfterTerminators l (drop (length l) s)
      else stripAfterTerminators l s)"

text \<open>
  The fifth pass, \<^verbatim>\<open>html.replace(/<pre>(\d+)<\/pre>/g, ...)\<close>, puts the stored content back
  without its leading spaces. An index beyond the arrays reads \<^verbatim>\<open>undefined\<close> for the content,
  and \<^verbatim>\<open>content.replace\<close> throws a TypeError.
\<close>

fun restorePre :: "(string \<times> string) list \<Rightarrow> string \<Rightarrow> error + string" where
  "restorePre ps [] = Inr []"
| "restorePre ps (c # cs) =
     (let idx = takeWhile isDigit (drop 4 cs);
          r = dropWhile isDigit (drop 4 cs)
      in if prefix ''<pre>'' (c # cs) \<and> idx \<noteq> [] \<and> prefix ''</pre>'' r then
           (if decimalValue idx < length ps then
              (case restorePre ps (drop 6 r) of
                 Inl e \<Rightarrow> Inl e
               | Inr out \<Rightarrow>
                   Inr (''<pre>''
                        @ stripIndent (snd (ps ! decimalValue idx)) (fst (ps ! decimalValue idx))
                        @ ''</pre>'' @ out))
            else Inl TypeError)
         else (case restorePre ps cs of
                 Inl e \<Rightarrow> Inl e
               | Inr out \<Rightarrow> Inr (c # out)))"

text \<open>\<^verbatim>\<open>html.replace(/<\/?span[^>]*>/g, '')\<close> and the same for \<^verbatim>\<open>div\<close>: an opening or a
  closing tag whose name starts with the given name, up to the first \<^verbatim>\<open>>\<close>.\<close>

fun stripTag :: "string \<Rightarrow> string \<Rightarrow> string" where
  "stripTag name [] = []"
| "stripTag name (c # cs) =
     (if prefix (''<'' @ name) (c # cs) \<and> CHR ''>'' \<in> set (drop (length name) cs) then
        stripTag name (tl (dropWhile (\<lambda>x. x \<noteq> CHR ''>'') (drop (length name) cs)))
      else if prefix (''</'' @ name) (c # cs) \<and> CHR ''>'' \<in> set (drop (Suc (length name)) cs) then
        stripTag name (tl (dropWhile (\<lambda>x. x \<noteq> CHR ''>'') (drop (Suc (length name)) cs)))
      else c # stripTag name cs)"

text \<open>\<^verbatim>\<open>content.replace(/(\S)(<b>|<i>|<code>)/g, '$1 $2')\<close>\<close>

fun spaceBeforeTags :: "string \<Rightarrow> string" where
  "spaceBeforeTags [] = []"
| "spaceBeforeTags (c # cs) =
     (if \<not> isSpace c \<and> prefix ''<b>'' cs then
        c # CHR '' '' # ''<b>'' @ spaceBeforeTags (drop 3 cs)
      else if \<not> isSpace c \<and> prefix ''<i>'' cs then
        c # CHR '' '' # ''<i>'' @ spaceBeforeTags (drop 3 cs)
      else if \<not> isSpace c \<and> prefix ''<code>'' cs then
        c # CHR '' '' # ''<code>'' @ spaceBeforeTags (drop 6 cs)
      else c # spaceBeforeTags cs)"

text \<open>The last pass, \<^verbatim>\<open>html.replace(/<p>([\s\S]*?)<\/p>/g, ...)\<close>: the content between a
  \<^verbatim>\<open><p>\<close> and the first \<^verbatim>\<open></p>\<close> after it gets the spaces.\<close>

function spaceInParagraphs :: "string \<Rightarrow> string" where
  "spaceInParagraphs s =
     (case findSub ''<p>'' s of
        None \<Rightarrow> s
      | Some (front, rest) \<Rightarrow>
          (case findSub ''</p>'' rest of
             None \<Rightarrow> s
           | Some (content, back) \<Rightarrow>
               front @ ''<p>'' @ spaceBeforeTags content @ ''</p>'' @ spaceInParagraphs back))"
  by pat_completeness auto

termination spaceInParagraphs
  by (relation "measure length") (auto dest!: findSub_split)

declare spaceInParagraphs.simps [simp del]

text \<open>\<^verbatim>\<open>compressHTML\<close>: the passes in the order of the source.\<close>

definition compressHTML :: "string \<Rightarrow> error + string" where
  "compressHTML html =
     (let (h1, pres) = extractPre 0 html;
          (h2, tagAttributes) = extractAttrs 0 h1;
          h3 = removeNewlines h2;
          h4 = restoreAttrs tagAttributes h3
      in case restorePre pres h4 of
           Inl e \<Rightarrow> Inl e
         | Inr h5 \<Rightarrow>
             Inr (spaceInParagraphs (stripTag ''div'' (stripTag ''span'' (brToNewline h5)))))"

text \<open>
  \<^verbatim>\<open>parseHtml\<close>. The list linearizer (\<^verbatim>\<open>linearizeLists\<close>), the HTML parser
  (\<^verbatim>\<open>parseDocument\<close>, which gives the children of the document) and the block assembler
  (\<^verbatim>\<open>blockBuilder\<close>) are not part of \<^verbatim>\<open>src/parsers/index.ts\<close>: they are parameters.
\<close>

definition parseHtml ::
  "(string \<Rightarrow> string) \<Rightarrow> (string \<Rightarrow> node list) \<Rightarrow> (block list \<Rightarrow> 'a) \<Rightarrow> string \<Rightarrow> error + 'a" where
  "parseHtml linearizeLists parseDocument blockBuilder html =
     (case compressHTML html of
        Inl e \<Rightarrow> Inl e
      | Inr h \<Rightarrow>
          (case collectBlocks (bodyChildren (parseDocument (linearizeLists h))) of
             Inl e \<Rightarrow> Inl e
           | Inr blocks \<Rightarrow> Inr (blockBuilder blocks)))"

section \<open>Notions used to state the properties\<close>

text \<open>The tag names that have a case of their own in the \<^verbatim>\<open>switch\<close> of \<^verbatim>\<open>parseNode\<close>.\<close>

definition recognizedTags :: "string list" where
  "recognizedTags =
     [''ul'', ''ol'', ''li'', ''pre'', ''blockquote'', ''img'', ''p''] @ inlineTags @ headerTags"



text \<open>A parser given by a finite table, used to state examples: the table holds what the
  HTML parser returns on the strings of the example.\<close>

definition tableParser :: "(string \<times> node list) list \<Rightarrow> string \<Rightarrow> node list" where
  "tableParser table s = (case map_of table s of None \<Rightarrow> [] | Some ns \<Rightarrow> ns)"

text \<open>A document of \<^verbatim>\<open><pre>\<close> blocks, given by its segments (the text before a block, the
  spaces and tabs right before its \<^verbatim>\<open><pre>\<close>, and its content) and the text after the last
  block.\<close>

fun preDocument :: "(string \<times> string \<times> string) list \<Rightarrow> string \<Rightarrow> string" where
  "preDocument [] tail = tail"
| "preDocument ((s, l, c) # r) tail = s @ l @ ''<pre>'' @ c @ ''</pre>'' @ preDocument r tail"

text \<open>The same document with each block restored: the text before it, and its content
  without one leading line feed and without the leading spaces of this block.\<close>

fun restoredDocument :: "(string \<times> string \<times> string) list \<Rightarrow> string \<Rightarrow> string" where
  "restoredDocument [] tail = tail"
| "restoredDocument ((s, l, c) # r) tail =
     s @ ''<pre>'' @ stripIndent l (stripLeadingNewline c) @ ''</pre>'' @ restoredDocument r tail"

text \<open>A text without \<^verbatim>\<open><\<close> and without a line feed.\<close>

definition plainText :: "string \<Rightarrow> bool" where
  "plainText s = (CHR ''<'' \<notin> set s \<and> newline \<notin> set s)"

text \<open>A text between two blocks: plain, and not ending in a space or a tab (which would
  belong to the leading spaces of the next block).\<close>

definition separator :: "string \<Rightarrow> bool" where
  "separator s = (plainText s \<and> (s = [] \<or> \<not> isBlank (last s)))"

text \<open>The document after the first pass, each block replaced by \<^verbatim>\<open><pre>i</pre>\<close>, and after
  the second pass, each \<^verbatim>\<open><pre>\<close> carrying the index of its attributes.\<close>

fun placeholders :: "nat \<Rightarrow> (string \<times> string \<times> string) list \<Rightarrow> string \<Rightarrow> string" where
  "placeholders n [] tail = tail"
| "placeholders n ((s, l, c) # r) tail =
     s @ ''<pre>'' @ showNat n @ ''</pre>'' @ placeholders (Suc n) r tail"

fun marked :: "nat \<Rightarrow> (string \<times> string \<times> string) list \<Rightarrow> string \<Rightarrow> string" where
  "marked n [] tail = tail"
| "marked n ((s, l, c) # r) tail =
     s @ ''<pre'' @ attrMarker @ showNat n @ dquote # ''>'' @ showNat n @ ''</pre>''
       @ marked (Suc n) r tail"

section \<open>Properties of the tree walker\<close>

lemma error_is_TypeError: "(e :: error) = TypeError"
  by (cases e) simp

lemma parseChildren_EmptyObj:
  "parseChildren EmptyObj cs =
     (if \<exists>c \<in> set cs. parseNode c = Inl TypeError then Inl TypeError else Inr EmptyObj)"
proof (induction cs)
  case Nil
  then show ?case by simp
next
  case (Cons c cs)
  show ?case
  proof (cases "parseNode c")
    case (Inl e)
    then show ?thesis by (simp add: error_is_TypeError [of e])
  next
    case (Inr r)
    with Cons show ?thesis by simp
  qed
qed

lemma initialBlock_unrecognized:
  "name \<notin> set recognizedTags \<Longrightarrow> initialBlock name attrs = EmptyObj"
  by (simp add: recognizedTags_def initialBlock_def)

text \<open>
  Claim C1, at the input \<^verbatim>\<open><a href=x></a>\<close>. The normalizer leaves the string as it is; the
  parser gives an anchor with an empty list of children; \<^verbatim>\<open>parseText\<close> reads
  \<^verbatim>\<open>node.children[0].type\<close> and throws, and nothing catches the exception, so the conversion
  fails where the claim promises a best-effort result.
\<close>

theorem parseHtml_throws_on_childless_anchor:
  "compressHTML ''<a href=x></a>'' = Inr ''<a href=x></a>''
   \<and> parseHtml (\<lambda>s. s) (\<lambda>s. [Tag ''a'' [(''href'', ''x'')] []]) (\<lambda>bs. bs) ''<a href=x></a>''
       = Inl TypeError"
  by code_simp

text \<open>
  Claim C3, as the code has it: a tag node whose name has no case in the \<^verbatim>\<open>switch\<close> yields
  the empty object whether or not it has children. The children are still visited, so an
  exception thrown in one of them propagates; their results are discarded, because the empty
  object has no \<^verbatim>\<open>elements\<close> key.
\<close>

theorem unrecognized_tag_gives_empty_object:
  "name \<notin> set recognizedTags \<Longrightarrow>
   parseNode (Tag name attrs cs) =
     (if \<exists>c \<in> set cs. parseNode c = Inl TypeError then Inl TypeError
      else Inr (Single EmptyObj))"
proof -
  assume a: "name \<notin> set recognizedTags"
  then have "name \<notin> set inlineTags" and "name \<notin> set headerTags"
    by (simp_all add: recognizedTags_def)
  with initialBlock_unrecognized [OF a, of attrs] show ?thesis
    by (simp add: parseChildren_EmptyObj)
qed

theorem unrecognized_tag_gives_empty_object_witness:
  "''table'' \<notin> set recognizedTags
   \<and> parseNode (Tag ''table'' [] [Text ''x'']) = Inr (Single EmptyObj)"
proof -
  have h: "''table'' \<notin> set recognizedTags"
    by (simp add: recognizedTags_def inlineTags_def headerTags_def)
  have c: "\<not> (\<exists>c \<in> set [Text ''x'']. parseNode c = Inl TypeError)"
    by simp
  from unrecognized_tag_gives_empty_object [OF h, of "[]" "[Text ''x'']"] c h
  show ?thesis by simp
qed

text \<open>
  Claim C3 as stated fails: the paragraph alone yields a section with its text, and the same
  paragraph inside an unrecognized \<^verbatim>\<open>section\<close> tag is lost, the result being the empty
  object.
\<close>

theorem unrecognized_tag_with_children_counterexample:
  "parseNode (Tag ''p'' [] [Text ''hi''])
     = Inr (Single (RichTextSection [Element (RichText ''hi'' None)]))
   \<and> parseNode (Tag ''section'' [] [Tag ''p'' [] [Text ''hi'']]) = Inr (Single EmptyObj)"
  by code_simp


















section \<open>Properties of the text run builder\<close>

text \<open>
  Claim C5: a text leaf inside \<^verbatim>\<open><b><i>\<close> and inside \<^verbatim>\<open><i><b>\<close> becomes one text element
  whose style has both \<^verbatim>\<open>bold\<close> and \<^verbatim>\<open>italic\<close> set, whatever the text, the attributes of the
  two tags and the inherited style; from \<^verbatim>\<open>parseNode\<close>, where the inherited style is empty,
  the style is exactly these two flags in both orders.
\<close>

theorem nested_bold_italic_any_order:
  "parseText (Tag ''b'' a1 [Tag ''i'' a2 [Text x]]) st
     = Inr [RichText (textData x) (Some (st\<lparr>bold := True, italic := True\<rparr>))]
   \<and> parseText (Tag ''i'' a1 [Tag ''b'' a2 [Text x]]) st
     = Inr [RichText (textData x) (Some (st\<lparr>bold := True, italic := True\<rparr>))]
   \<and> parseNode (Tag ''b'' a1 [Tag ''i'' a2 [Text x]])
     = Inr (Many [RichText (textData x)
          (Some \<lparr>bold = True, italic = True, strike = False, code = False\<rparr>)])
   \<and> parseNode (Tag ''i'' a1 [Tag ''b'' a2 [Text x]])
     = Inr (Many [RichText (textData x)
          (Some \<lparr>bold = True, italic = True, strike = False, code = False\<rparr>)])"
  by (simp add: setStyle_def attachStyle_def hasKeys_def inlineTags_def noStyle_def)

lemma parseTextS_frame:
  "parseTextS n r h = Inr (es, h') \<Longrightarrow> r < length h \<Longrightarrow>
     length h \<le> length h' \<and> (\<forall>a<length h. a \<noteq> r \<longrightarrow> h' ! a = h ! a)
     \<and> h' ! r = (case n of Tag name _ _ \<Rightarrow> setStyle name (h ! r) | _ \<Rightarrow> h ! r)"
  "parseTextChildrenS cs r h = Inr (es, h') \<Longrightarrow> r < length h \<Longrightarrow>
     length h \<le> length h' \<and> (\<forall>a<length h. h' ! a = h ! a)"
proof (induction n r h and cs r h arbitrary: es h' and es h'
    rule: parseTextS_parseTextChildrenS.induct)
  case (1 name attrs cs r h)
  show ?case
  proof (cases "name = ''a''")
    case True
    with "1.prems" show ?thesis
      by (auto simp: Let_def split: list.splits)
  next
    case False
    with "1.prems" have c: "parseTextChildrenS cs r (h[r := setStyle name (h ! r)]) = Inr (es, h')"
      by simp
    have "r < length (h[r := setStyle name (h ! r)])" using "1.prems" by simp
    from "1.IH" [OF refl False c this] "1.prems"(2) show ?thesis
      by auto
  qed
next
  case (2 d r h)
  then show ?case by auto
next
  case (3 r h)
  then show ?case by auto
next
  case (4 r h)
  then show ?case by auto
next
  case (5 c cs r h)
  from "5.prems" obtain ts h1 us where
    a: "parseTextS c (length h) (h @ [h ! r]) = Inr (ts, h1)"
    and b: "parseTextChildrenS cs r h1 = Inr (us, h')"
    by (auto split: sum.splits prod.splits)
  have l: "length h < length (h @ [h ! r])" by simp
  from "5.IH"(1) [OF a l] have f1: "length h < length h1"
    and f2: "\<forall>a<length h. h1 ! a = h ! a"
    by (auto simp: nth_append)
  from f1 "5.prems"(2) have r1: "r < length h1" by simp
  from "5.IH"(2) [OF a refl b r1] have "length h1 \<le> length h'" and "\<forall>a<length h1. h' ! a = h1 ! a"
    by auto
  with f1 f2 show ?case by auto
qed

lemma elementStyle_attach [simp]:
  "elementStyle (RichText t (attachStyle st)) = st"
  "elementStyle (Link u (attachStyle st) x) = st"
  by (simp_all add: elementStyle_def attachStyle_def hasKeys_def noStyle_def)

lemma styleLe_refl [simp]: "styleLe st st"
  by (simp add: styleLe_def)

lemma styleLe_trans: "styleLe a b \<Longrightarrow> styleLe b c \<Longrightarrow> styleLe a c"
  by (simp add: styleLe_def)

lemma styleLe_setStyle [simp]: "styleLe st (setStyle name st)"
  by (simp add: styleLe_def setStyle_def)

lemma parseText_monotone:
  "parseText n st = Inr es \<Longrightarrow> list_all (\<lambda>e. styleLe st (elementStyle e)) es"
  "parseTextChildren cs st = Inr es \<Longrightarrow> list_all (\<lambda>e. styleLe st (elementStyle e)) es"
proof (induction n st and cs st arbitrary: es and es rule: parseText_parseTextChildren.induct)
  case (1 name attrs cs st)
  show ?case
  proof (cases "name = ''a''")
    case True
    with "1.prems" show ?thesis
      by (auto split: list.splits)
  next
    case False
    with "1.prems" have "parseTextChildren cs (setStyle name st) = Inr es" by simp
    from "1.IH" [OF refl False this]
    have "list_all (\<lambda>e. styleLe (setStyle name st) (elementStyle e)) es" .
    then show ?thesis
      by (auto simp: list_all_iff intro: styleLe_trans [OF styleLe_setStyle])
  qed
next
  case (2 d st)
  then show ?case by auto
next
  case (3 st)
  then show ?case by auto
next
  case (4 st)
  then show ?case by auto
next
  case (5 c cs st)
  from "5.prems" obtain ts us where a: "parseText c st = Inr ts"
    and b: "parseTextChildren cs st = Inr us" and e: "es = ts @ us"
    by (auto split: sum.splits)
  from "5.IH"(1) [OF a] "5.IH"(2) [OF a b] e show ?case by simp
qed

lemma parseTextS_refines:
  "r < length h \<Longrightarrow>
     parseText n (h ! r) = (case parseTextS n r h of Inl e \<Rightarrow> Inl e | Inr (es, h') \<Rightarrow> Inr es)"
  "r < length h \<Longrightarrow>
     parseTextChildren cs (h ! r) =
       (case parseTextChildrenS cs r h of Inl e \<Rightarrow> Inl e | Inr (es, h') \<Rightarrow> Inr es)"
proof (induction n r h and cs r h rule: parseTextS_parseTextChildrenS.induct)
  case (1 name attrs cs r h)
  show ?case
  proof (cases "name = ''a''")
    case True
    with "1.prems" show ?thesis
      by (auto simp: Let_def split: list.splits)
  next
    case False
    have "r < length (h[r := setStyle name (h ! r)])" using "1.prems" by simp
    from "1.IH" [OF refl False this] False "1.prems" show ?thesis by simp
  qed
next
  case (2 d r h)
  then show ?case by simp
next
  case (3 r h)
  then show ?case by simp
next
  case (4 r h)
  then show ?case by simp
next
  case (5 c cs r h)
  have l: "length h < length (h @ [h ! r])" by simp
  from "5.IH"(1) [OF l]
  have c: "parseText c (h ! r) =
      (case parseTextS c (length h) (h @ [h ! r]) of Inl e \<Rightarrow> Inl e | Inr (es, h') \<Rightarrow> Inr es)"
    by simp
  show ?case
  proof (cases "parseTextS c (length h) (h @ [h ! r])")
    case (Inl e)
    with c show ?thesis by simp
  next
    case (Inr p)
    obtain ts h1 where p: "p = (ts, h1)" by (cases p)
    from parseTextS_frame(1) [OF Inr [unfolded p] l] "5.prems"
    have r1: "r < length h1" and same: "h1 ! r = h ! r"
      by (auto simp: nth_append)
    from "5.IH"(2) [OF Inr [unfolded p] refl r1] same
    have "parseTextChildren cs (h ! r) =
        (case parseTextChildrenS cs r h1 of Inl e \<Rightarrow> Inl e | Inr (es, h') \<Rightarrow> Inr es)"
      by simp
    with c Inr p show ?thesis
      by (auto split: sum.splits prod.splits)
  qed
qed

text \<open>
  Claim C4, on the model that keeps the style objects in a store. For a call of \<^verbatim>\<open>parseText\<close>
  on the style object at address \<open>r\<close>: every element produced carries all the flags the object
  had at the call (flags are only added on the way down); the object itself only gains flags;
  no other object of the store is changed, so the copy a call received is invisible to its
  caller and to its siblings; the loop over the children leaves every object that existed
  before it as it was, so each child gets a copy of the same style; and the result is the one
  of the by-value function \<^const>\<open>parseText\<close>.
\<close>

theorem style_flags_accumulate_in_fresh_copies:
  "r < length h \<Longrightarrow>
   (\<forall>es h'. parseTextS n r h = Inr (es, h') \<longrightarrow>
      list_all (\<lambda>e. styleLe (h ! r) (elementStyle e)) es
      \<and> styleLe (h ! r) (h' ! r)
      \<and> (\<forall>a<length h. a \<noteq> r \<longrightarrow> h' ! a = h ! a)
      \<and> parseText n (h ! r) = Inr es)
   \<and> (\<forall>cs es h'. parseTextChildrenS cs r h = Inr (es, h') \<longrightarrow>
      (\<forall>a<length h. h' ! a = h ! a) \<and> parseTextChildren cs (h ! r) = Inr es)
   \<and> (parseTextS n r h = Inl TypeError \<longleftrightarrow> parseText n (h ! r) = Inl TypeError)"
proof (intro conjI allI impI)
  fix es h'
  assume r: "r < length h" and p: "parseTextS n r h = Inr (es, h')"
  from parseTextS_refines(1) [OF r, of n] p show pure: "parseText n (h ! r) = Inr es" by simp
  from parseText_monotone(1) [OF pure]
  show "list_all (\<lambda>e. styleLe (h ! r) (elementStyle e)) es" .
  from parseTextS_frame(1) [OF p r] show "styleLe (h ! r) (h' ! r)"
    by (cases n) auto
next
  fix es h' a
  assume r: "r < length h" and p: "parseTextS n r h = Inr (es, h')"
    and "a < length h" "a \<noteq> r"
  with parseTextS_frame(1) [OF p r] show "h' ! a = h ! a" by simp
next
  fix cs es h' a
  assume r: "r < length h" and p: "parseTextChildrenS cs r h = Inr (es, h')" and "a < length h"
  with parseTextS_frame(2) [OF p r] show "h' ! a = h ! a" by simp
next
  fix cs es h'
  assume r: "r < length h" and p: "parseTextChildrenS cs r h = Inr (es, h')"
  from parseTextS_refines(2) [OF r, of cs] p show "parseTextChildren cs (h ! r) = Inr es" by simp
next
  assume r: "r < length h"
  from parseTextS_refines(1) [OF r, of n]
  show "parseTextS n r h = Inl TypeError \<longleftrightarrow> parseText n (h ! r) = Inl TypeError"
    by (auto split: sum.splits prod.splits simp: error_is_TypeError)
qed

theorem style_flags_accumulate_in_fresh_copies_witness:
  "(0::nat) < length [noStyle]
   \<and> parseTextS (Tag ''b'' [] [Tag ''i'' [] [Text ''x''], Text ''y'']) 0 [noStyle]
       = Inr ([RichText ''x'' (Some \<lparr>bold = True, italic = True, strike = False, code = False\<rparr>),
               RichText ''y'' (Some \<lparr>bold = True, italic = False, strike = False, code = False\<rparr>)],
              [\<lparr>bold = True, italic = False, strike = False, code = False\<rparr>,
               \<lparr>bold = True, italic = True, strike = False, code = False\<rparr>,
               \<lparr>bold = True, italic = True, strike = False, code = False\<rparr>,
               \<lparr>bold = True, italic = False, strike = False, code = False\<rparr>])
   \<and> parseText (Tag ''b'' [] [Tag ''i'' [] [Text ''x''], Text ''y'']) ([noStyle] ! 0)
       = Inr [RichText ''x'' (Some \<lparr>bold = True, italic = True, strike = False, code = False\<rparr>),
              RichText ''y'' (Some \<lparr>bold = True, italic = False, strike = False, code = False\<rparr>)]"
proof -
  have h: "(0::nat) < length [noStyle]" by simp
  have e: "parseTextS (Tag ''b'' [] [Tag ''i'' [] [Text ''x''], Text ''y'']) 0 [noStyle]
       = Inr ([RichText ''x'' (Some \<lparr>bold = True, italic = True, strike = False, code = False\<rparr>),
               RichText ''y'' (Some \<lparr>bold = True, italic = False, strike = False, code = False\<rparr>)],
              [\<lparr>bold = True, italic = False, strike = False, code = False\<rparr>,
               \<lparr>bold = True, italic = True, strike = False, code = False\<rparr>,
               \<lparr>bold = True, italic = True, strike = False, code = False\<rparr>,
               \<lparr>bold = True, italic = False, strike = False, code = False\<rparr>])"
    by code_simp
  from style_flags_accumulate_in_fresh_copies
    [OF h, of "Tag ''b'' [] [Tag ''i'' [] [Text ''x''], Text ''y'']"] e h
  show ?thesis by blast
qed

text \<open>An anchor with at least one child: one link, with the url of \<^verbatim>\<open>href\<close>, the style only
  when a flag is set, and the text of the first child only when it is a text node. The other
  children and all descendants are not visited.\<close>

lemma anchor_with_children:
  "parseText (Tag ''a'' attrs (c # cs)) st =
     Inr [Link (map_of attrs ''href'') (if hasKeys st then Some st else None)
           (case c of Text d \<Rightarrow> Some d | _ \<Rightarrow> None)]"
  by (simp add: setStyle_def attachStyle_def)

text \<open>
  Claim C9, at an anchor without children (\<^verbatim>\<open><a href="https://x.test"></a>\<close>): no link
  element is produced. The guard \<^verbatim>\<open>if (node.children)\<close> holds for the empty array, and
  reading \<^verbatim>\<open>node.children[0].type\<close> throws, for every accumulated style and from
  \<^verbatim>\<open>parseNode\<close> as well.
\<close>

theorem anchor_without_children_throws:
  "parseText (Tag ''a'' attrs []) st = Inl TypeError
   \<and> parseNode (Tag ''a'' attrs []) = Inl TypeError"
  by (simp add: inlineTags_def)

section \<open>Properties of the normalizer\<close>

lemma findSub_None_not_prefix: "findSub needle s = None \<Longrightarrow> \<not> prefix needle s"
  by (cases s) (auto split: if_splits)

lemma findSub_None_Cons: "findSub needle (c # cs) = None \<Longrightarrow> findSub needle cs = None"
  by (auto split: if_splits option.splits)

lemma findSub_first:
  "x \<notin> set rest \<Longrightarrow> findSub (x # rest) xs = None \<Longrightarrow>
     findSub (x # rest) (xs @ (x # rest) @ ys) = Some (xs, ys)"
proof (induction xs)
  case Nil
  then show ?case by simp
next
  case (Cons c xs)
  from Cons.prems(2) have np: "\<not> prefix (x # rest) (c # xs)"
    by (rule findSub_None_not_prefix)
  have "\<not> prefix (x # rest) (c # xs @ (x # rest) @ ys)"
  proof
    assume p: "prefix (x # rest) (c # xs @ (x # rest) @ ys)"
    then have cx: "c = x" and "prefix rest (xs @ (x # rest) @ ys)" by auto
    then have "prefix rest xs \<or> (\<exists>us. rest = xs @ us \<and> prefix us ((x # rest) @ ys))"
      by (simp add: prefix_append)
    then show False
    proof
      assume "prefix rest xs"
      with cx np show False by simp
    next
      assume "\<exists>us. rest = xs @ us \<and> prefix us ((x # rest) @ ys)"
      then obtain us where r: "rest = xs @ us" and u: "prefix us ((x # rest) @ ys)" by blast
      show False
      proof (cases us)
        case Nil
        with r cx np show False by simp
      next
        case (Cons u us')
        with u have "u = x" by simp
        with Cons r Cons.prems(1) show False by simp
      qed
    qed
  qed
  moreover from Cons.prems(2) have "findSub (x # rest) xs = None"
    by (rule findSub_None_Cons)
  ultimately show ?case using Cons.IH [OF Cons.prems(1)] by simp
qed

lemma spaceBeforeTags_no_tag:
  "findSub ''<b>'' s = None \<Longrightarrow> findSub ''<i>'' s = None \<Longrightarrow> findSub ''<code>'' s = None \<Longrightarrow>
     spaceBeforeTags s = s"
proof (induction s)
  case Nil
  then show ?case by simp
next
  case (Cons c cs)
  have b: "findSub ''<b>'' cs = None" using Cons.prems(1) by (rule findSub_None_Cons)
  have i: "findSub ''<i>'' cs = None" using Cons.prems(2) by (rule findSub_None_Cons)
  have k: "findSub ''<code>'' cs = None" using Cons.prems(3) by (rule findSub_None_Cons)
  from findSub_None_not_prefix [OF b] findSub_None_not_prefix [OF i] findSub_None_not_prefix [OF k]
    Cons.IH [OF b i k]
  show ?case by simp
qed

lemma spaceInParagraphs_step:
  assumes "findSub ''<p>'' front = None" and "findSub ''</p>'' content = None"
  shows "spaceInParagraphs (front @ ''<p>'' @ content @ ''</p>'' @ back)
    = front @ ''<p>'' @ spaceBeforeTags content @ ''</p>'' @ spaceInParagraphs back"
proof -
  have a: "findSub ''<p>'' (front @ ''<p>'' @ content @ ''</p>'' @ back)
      = Some (front, content @ ''</p>'' @ back)"
    using findSub_first [of "CHR ''<''" "''p>''" front "content @ ''</p>'' @ back"] assms(1)
    by simp
  have b: "findSub ''</p>'' (content @ ''</p>'' @ back) = Some (content, back)"
    using findSub_first [of "CHR ''<''" "''/p>''" content "back"] assms(2)
    by simp
  show ?thesis
    by (subst spaceInParagraphs.simps) (simp only: a b option.case prod.case)
qed

text \<open>
  Claim C10. In the replacement applied to the content of a paragraph, a space is inserted
  after a character that is not whitespace exactly when the literal \<^verbatim>\<open><b>\<close>, \<^verbatim>\<open><i>\<close> or
  \<^verbatim>\<open><code>\<close> follows it; a character followed by anything else, and a whitespace character,
  are copied as they are, so a content in which none of the three literal tags occurs is
  unchanged. The replacement is applied between a \<^verbatim>\<open><p>\<close> and the first \<^verbatim>\<open></p>\<close> after it and
  nowhere else. Through the whole normalizer: a space is inserted before \<^verbatim>\<open><b>\<close>, \<^verbatim>\<open><i>\<close>,
  \<^verbatim>\<open><code>\<close>, and none before \<^verbatim>\<open><strong>\<close>, \<^verbatim>\<open><em>\<close>, \<^verbatim>\<open><s>\<close>, an anchor or a \<^verbatim>\<open><b>\<close> with an
  attribute.
\<close>

theorem space_only_before_literal_b_i_code:
  "(\<not> isSpace c \<longrightarrow> spaceBeforeTags (c # ''<b>'' @ r) = c # CHR '' '' # ''<b>'' @ spaceBeforeTags r)
   \<and> (\<not> isSpace c \<longrightarrow> spaceBeforeTags (c # ''<i>'' @ r) = c # CHR '' '' # ''<i>'' @ spaceBeforeTags r)
   \<and> (\<not> isSpace c \<longrightarrow>
        spaceBeforeTags (c # ''<code>'' @ r) = c # CHR '' '' # ''<code>'' @ spaceBeforeTags r)
   \<and> (\<not> prefix ''<b>'' cs \<and> \<not> prefix ''<i>'' cs \<and> \<not> prefix ''<code>'' cs \<longrightarrow>
        spaceBeforeTags (c # cs) = c # spaceBeforeTags cs)
   \<and> (isSpace c \<longrightarrow> spaceBeforeTags (c # cs) = c # spaceBeforeTags cs)
   \<and> (findSub ''<b>'' s = None \<and> findSub ''<i>'' s = None \<and> findSub ''<code>'' s = None \<longrightarrow>
        spaceBeforeTags s = s)
   \<and> (findSub ''<p>'' front = None \<and> findSub ''</p>'' content = None \<longrightarrow>
        spaceInParagraphs (front @ ''<p>'' @ content @ ''</p>'' @ back)
          = front @ ''<p>'' @ spaceBeforeTags content @ ''</p>'' @ spaceInParagraphs back)
   \<and> (findSub ''<p>'' s = None \<longrightarrow> spaceInParagraphs s = s)
   \<and> compressHTML ''<p>x<b>y</b>z<i>y</i>z<code>y</code></p>''
        = Inr ''<p>x <b>y</b>z <i>y</i>z <code>y</code></p>''
   \<and> compressHTML ''<p>x<strong>y</strong>z<em>y</em>z<s>y</s>z<a href=u>y</a>z<b class=k>y</b></p>''
        = Inr ''<p>x<strong>y</strong>z<em>y</em>z<s>y</s>z<a href=u>y</a>z<b class=k>y</b></p>''"
proof (intro conjI impI)
  show "compressHTML ''<p>x<b>y</b>z<i>y</i>z<code>y</code></p>''
        = Inr ''<p>x <b>y</b>z <i>y</i>z <code>y</code></p>''"
    by code_simp
  show "compressHTML ''<p>x<strong>y</strong>z<em>y</em>z<s>y</s>z<a href=u>y</a>z<b class=k>y</b></p>''
        = Inr ''<p>x<strong>y</strong>z<em>y</em>z<s>y</s>z<a href=u>y</a>z<b class=k>y</b></p>''"
    by code_simp
next
  assume "findSub ''<b>'' s = None \<and> findSub ''<i>'' s = None \<and> findSub ''<code>'' s = None"
  then show "spaceBeforeTags s = s" by (simp add: spaceBeforeTags_no_tag)
next
  assume "findSub ''<p>'' front = None \<and> findSub ''</p>'' content = None"
  then have x: "findSub ''<p>'' front = None" and y: "findSub ''</p>'' content = None"
    by simp_all
  from spaceInParagraphs_step [OF x y]
  show "spaceInParagraphs (front @ ''<p>'' @ content @ ''</p>'' @ back)
          = front @ ''<p>'' @ spaceBeforeTags content @ ''</p>'' @ spaceInParagraphs back" .
next
  assume "findSub ''<p>'' s = None"
  then show "spaceInParagraphs s = s"
    by (subst spaceInParagraphs.simps) simp
qed (simp_all)

theorem space_only_before_literal_b_i_code_witness:
  "\<not> isSpace CHR ''x''
   \<and> spaceBeforeTags ''x<b>y</b>'' = ''x <b>y</b>''
   \<and> findSub ''<b>'' ''x<strong>y'' = None \<and> findSub ''<i>'' ''x<strong>y'' = None
   \<and> findSub ''<code>'' ''x<strong>y'' = None
   \<and> spaceBeforeTags ''x<strong>y'' = ''x<strong>y''
   \<and> spaceInParagraphs ''a<b><p>x<b>y</p>z<i>'' = ''a<b><p>x <b>y</p>z<i>''"
proof -
  have h1: "\<not> isSpace CHR ''x''" by (simp add: isSpace_def)
  have h2: "findSub ''<b>'' ''x<strong>y'' = None \<and> findSub ''<i>'' ''x<strong>y'' = None
      \<and> findSub ''<code>'' ''x<strong>y'' = None"
    by code_simp
  have h3: "findSub ''<p>'' ''a<b>'' = None \<and> findSub ''</p>'' ''x<b>y'' = None"
    by code_simp
  have h4: "findSub ''<p>'' ''z<i>'' = None" by code_simp
  have e1: "spaceBeforeTags ''y</b>'' = ''y</b>''" by code_simp
  have e2: "spaceBeforeTags ''x<b>y'' = ''x <b>y''" by code_simp
  from space_only_before_literal_b_i_code
    [of "CHR ''x''" "''y</b>''" "[]" "''x<strong>y''" "''a<b>''" "''x<b>y''" "''z<i>''"]
    space_only_before_literal_b_i_code [of "CHR ''x''" "[]" "[]" "''z<i>''" "[]" "[]" "[]"]
    h1 h2 h3 h4 e1 e2
  show ?thesis by simp
qed

lemma findSub_absent: "x \<notin> set xs \<Longrightarrow> findSub (x # rest) xs = None"
  by (induction xs) auto

lemma findSub_skip:
  "x \<notin> set xs \<Longrightarrow>
     findSub (x # rest) (xs @ ys) =
       (case findSub (x # rest) ys of None \<Rightarrow> None | Some (b, a) \<Rightarrow> Some (xs @ b, a))"
proof (induction xs)
  case Nil
  show ?case by (cases "findSub (x # rest) ys") auto
next
  case (Cons c xs)
  then have ne: "x \<noteq> c" and "x \<notin> set xs" by auto
  then have ih: "findSub (x # rest) (xs @ ys) =
       (case findSub (x # rest) ys of None \<Rightarrow> None | Some (b, a) \<Rightarrow> Some (xs @ b, a))"
    using Cons.IH by blast
  from ne have "findSub (x # rest) ((c # xs) @ ys) =
      (case findSub (x # rest) (xs @ ys) of None \<Rightarrow> None | Some (b, a) \<Rightarrow> Some (c # b, a))"
    by simp
  also have "\<dots> = (case findSub (x # rest) ys of None \<Rightarrow> None | Some (b, a) \<Rightarrow> Some ((c # xs) @ b, a))"
    unfolding ih by (cases "findSub (x # rest) ys") auto
  finally show ?case .
qed

lemma blank_no_lt: "list_all isBlank l \<Longrightarrow> CHR ''<'' \<notin> set l"
proof
  assume a: "list_all isBlank l" and "CHR ''<'' \<in> set l"
  then have "isBlank CHR ''<''" by (simp add: list_all_iff)
  then show False by (simp add: isBlank_def)
qed

lemma extractPre_none: "findSub ''<pre>'' s = None \<Longrightarrow> extractPre n s = (s, [])"
  by (subst extractPre.simps) simp

lemma notin_Cons: "x \<notin> set (c # cs) \<Longrightarrow> x \<noteq> c \<and> c \<noteq> x \<and> x \<notin> set cs"
  by auto

lemma brToNewline_skip:
  "CHR ''<'' \<notin> set xs \<Longrightarrow> brToNewline (xs @ ys) = xs @ brToNewline ys"
proof (induction xs)
  case Nil
  then show ?case by simp
next
  case (Cons c xs)
  from notin_Cons [OF Cons.prems] Cons.IH show ?case by simp
qed

lemma stripTag_skip:
  "CHR ''<'' \<notin> set xs \<Longrightarrow> stripTag name (xs @ ys) = xs @ stripTag name ys"
proof (induction xs)
  case Nil
  then show ?case by simp
next
  case (Cons c xs)
  from notin_Cons [OF Cons.prems] Cons.IH show ?case by simp
qed

lemma set_stripAfterTerminators: "set (stripAfterTerminators l s) \<subseteq> set s"
proof (induction l s rule: stripAfterTerminators.induct)
  case (1 l)
  then show ?case by simp
next
  case (2 l c cs)
  have "set (drop (length l) cs) \<subseteq> set cs" by (rule set_drop_subset)
  with 2 show ?case by (auto split: if_splits)
qed

lemma set_stripIndent: "set (stripIndent l s) \<subseteq> set s"
proof (cases "prefix l s")
  case True
  have "set (drop (length l) s) \<subseteq> set s" by (rule set_drop_subset)
  with set_stripAfterTerminators [of l "drop (length l) s"] True show ?thesis
    by (simp add: stripIndent_def; blast)
next
  case False
  with set_stripAfterTerminators [of l s] show ?thesis by (simp add: stripIndent_def)
qed

lemma set_stripLeadingNewline: "set (stripLeadingNewline s) \<subseteq> set s"
  by (cases s) (auto simp: stripLeadingNewline_def)

lemma restored_no_lt:
  "CHR ''<'' \<notin> set c \<Longrightarrow> CHR ''<'' \<notin> set (stripIndent l (stripLeadingNewline c))"
  using set_stripIndent [of l "stripLeadingNewline c"] set_stripLeadingNewline [of c] by blast




lemma extractAttrs_plain: "CHR ''<'' \<notin> set t \<Longrightarrow> extractAttrs n t = (t, [])"
proof (induction t)
  case Nil
  show ?case by simp
next
  case (Cons c t)
  from notin_Cons [OF Cons.prems] Cons.IH show ?case by simp
qed

lemma removeNewlines_plain: "newline \<notin> set t \<Longrightarrow> removeNewlines t = t"
proof (induction t)
  case Nil
  show ?case by simp
next
  case (Cons c t)
  from notin_Cons [OF Cons.prems] Cons.IH show ?case by simp
qed

lemma restoreAttrs_plain: "CHR ''<'' \<notin> set t \<Longrightarrow> restoreAttrs atts t = t"
proof (induction t)
  case Nil
  show ?case by simp
next
  case (Cons c t)
  from notin_Cons [OF Cons.prems] Cons.IH show ?case by (simp add: Let_def)
qed

lemma restorePre_plain: "CHR ''<'' \<notin> set t \<Longrightarrow> restorePre ps t = Inr t"
proof (induction t)
  case Nil
  show ?case by simp
next
  case (Cons c t)
  from notin_Cons [OF Cons.prems] Cons.IH show ?case by (simp add: Let_def)
qed

lemma laterPasses_plain:
  assumes "CHR ''<'' \<notin> set t"
  shows "spaceInParagraphs (stripTag ''div'' (stripTag ''span'' (brToNewline t))) = t"
proof -
  have b: "brToNewline t = t" using brToNewline_skip [OF assms, of "[]"] by simp
  have s: "stripTag ''span'' t = t" using stripTag_skip [OF assms, of "''span''" "[]"] by simp
  have d: "stripTag ''div'' t = t" using stripTag_skip [OF assms, of "''div''" "[]"] by simp
  have f: "findSub ''<p>'' t = None" using findSub_absent [OF assms, of "''p>''"] by simp
  have p: "spaceInParagraphs t = t"
    by (subst spaceInParagraphs.simps) (simp only: f option.case)
  show ?thesis unfolding b s d p by (rule refl)
qed

lemma compressHTML_plain:
  assumes a: "CHR ''<'' \<notin> set t" and n: "newline \<notin> set t"
  shows "compressHTML t = Inr t"
proof -
  have f: "findSub ''<pre>'' t = None" using findSub_absent [OF a, of "''pre>''"] by simp
  show ?thesis
    unfolding compressHTML_def extractPre_none [OF f] Let_def prod.case
      extractAttrs_plain [OF a] removeNewlines_plain [OF n] restoreAttrs_plain [OF a]
      restorePre_plain [OF a] sum.case laterPasses_plain [OF a]
    by (rule refl)
qed

lemma digits_upto_10:
  "list_all (\<lambda>n. isDigit (char_of (48 + n)) \<and> digitValue (char_of (48 + n)) = n)
     [0, 1, 2, 3, 4, 5, 6, 7, 8, 9 :: nat]"
  by code_simp

lemma less_10_cases: "(n :: nat) < 10 \<Longrightarrow> n \<in> set [0, 1, 2, 3, 4, 5, 6, 7, 8, 9]"
  by simp arith

lemma digit_char:
  assumes "(n :: nat) < 10"
  shows "isDigit (char_of (48 + n))" and "digitValue (char_of (48 + n)) = n"
  using digits_upto_10 less_10_cases [OF assms] unfolding list_all_iff by blast+

lemma digitsValue_snoc: "digitsValue r (xs @ [d]) = digitsValue r xs * r + digitValue d"
  by (simp add: digitsValue_def)

lemma showNat_digits:
  "list_all isDigit (showNat n) \<and> showNat n \<noteq> [] \<and> decimalValue (showNat n) = n"
proof (induction n rule: showNat.induct)
  case (1 n)
  show ?case
  proof (cases "n < 10")
    case True
    then have s: "showNat n = [char_of (48 + n)]" by (subst showNat.simps) simp
    from digit_char [OF True] show ?thesis
      by (simp add: s decimalValue_def digitsValue_def)
  next
    case False
    then have s: "showNat n = showNat (n div 10) @ [char_of (48 + n mod 10)]"
      by (subst showNat.simps) simp
    have m: "n mod 10 < 10" by simp
    from "1.IH" [OF False] digit_char [OF m] show ?thesis
      by (simp add: s decimalValue_def digitsValue_snoc)
  qed
qed


lemma dropWhile_all: "list_all P xs \<Longrightarrow> dropWhile P (xs @ ys) = dropWhile P ys"
  by (induction xs) simp_all

lemma takeWhile_all: "list_all P xs \<Longrightarrow> takeWhile P (xs @ ys) = xs @ takeWhile P ys"
  by (induction xs) simp_all

lemma blank_trailing_sep:
  assumes l: "list_all isBlank l" and s: "s = [] \<or> \<not> isBlank (last s)"
  shows "rev (dropWhile isBlank (rev (s @ l))) = s" and "rev (takeWhile isBlank (rev (s @ l))) = l"
proof -
  from l have b: "list_all isBlank (rev l)" by (simp add: list_all_iff)
  from s have d: "dropWhile isBlank (rev s) = rev s" and t: "takeWhile isBlank (rev s) = []"
    by (cases s rule: rev_cases; simp)+
  from dropWhile_all [OF b, of "rev s"] show "rev (dropWhile isBlank (rev (s @ l))) = s"
    by (simp add: d)
  from takeWhile_all [OF b, of "rev s"] show "rev (takeWhile isBlank (rev (s @ l))) = l"
    by (simp add: t)
qed

lemma extractPre_segment:
  assumes l: "list_all isBlank l" and s: "separator s" and c: "findSub ''</pre>'' c = None"
  shows "extractPre n (s @ l @ ''<pre>'' @ c @ ''</pre>'' @ rest) =
     (s @ ''<pre>'' @ showNat n @ ''</pre>'' @ fst (extractPre (Suc n) rest),
      (stripLeadingNewline c, l) # snd (extractPre (Suc n) rest))"
proof -
  from s blank_no_lt [OF l] have "CHR ''<'' \<notin> set (s @ l)"
    by (simp add: separator_def plainText_def)
  then have "findSub ''<pre>'' (s @ l) = None"
    using findSub_absent [of "CHR ''<''" "s @ l" "''pre>''"] by simp
  then have a: "findSub ''<pre>'' ((s @ l) @ ''<pre>'' @ c @ ''</pre>'' @ rest)
      = Some (s @ l, c @ ''</pre>'' @ rest)"
    using findSub_first [of "CHR ''<''" "''pre>''" "s @ l" "c @ ''</pre>'' @ rest"] by simp
  have b: "findSub ''</pre>'' (c @ ''</pre>'' @ rest) = Some (c, rest)"
    using findSub_first [of "CHR ''<''" "''/pre>''" c rest] c by simp
  from s have s': "s = [] \<or> \<not> isBlank (last s)" by (simp add: separator_def)
  have "extractPre n ((s @ l) @ ''<pre>'' @ c @ ''</pre>'' @ rest) =
     (s @ ''<pre>'' @ showNat n @ ''</pre>'' @ fst (extractPre (Suc n) rest),
      (stripLeadingNewline c, l) # snd (extractPre (Suc n) rest))"
    by (subst extractPre.simps)
      (simp only: a b option.case prod.case Let_def blank_trailing_sep [OF l s']
        split_beta fst_conv snd_conv)
  then show ?thesis by (simp only: append_assoc)
qed

lemma extractPre_preDocument:
  assumes "list_all (\<lambda>(s, l, c). separator s \<and> list_all isBlank l \<and> findSub ''</pre>'' c = None) segs"
    and "CHR ''<'' \<notin> set tail"
  shows "extractPre n (preDocument segs tail) =
     (placeholders n segs tail, map (\<lambda>(s, l, c). (stripLeadingNewline c, l)) segs)"
  using assms(1)
proof (induction segs arbitrary: n)
  case Nil
  have "findSub ''<pre>'' tail = None"
    using findSub_absent [OF assms(2), of "''pre>''"] by simp
  then show ?case by (simp add: extractPre_none)
next
  case (Cons seg segs)
  obtain s l c where seg: "seg = (s, l, c)" by (cases seg)
  from Cons.prems seg have h: "separator s" "list_all isBlank l" "findSub ''</pre>'' c = None"
    and r: "list_all (\<lambda>(s, l, c). separator s \<and> list_all isBlank l \<and> findSub ''</pre>'' c = None) segs"
    by simp_all
  from extractPre_segment [OF h(2) h(1) h(3), of n "preDocument segs tail"] Cons.IH [OF r, of "Suc n"]
  show ?case by (simp only: seg preDocument.simps placeholders.simps list.map prod.case fst_conv snd_conv)
qed

lemma wordChars:
  "isWord CHR ''p''" "isWord CHR ''r''" "isWord CHR ''e''"
  "\<not> isWord CHR ''>''" "\<not> isWord CHR ''/''" "\<not> isWord CHR '' ''"
  by code_simp+

lemma nonDigits:
  "\<not> isDigit CHR ''<''" "\<not> isDigit newline" "\<not> isDigit dquote"
  by code_simp+

lemma showNat_plain:
  "CHR ''<'' \<notin> set (showNat n)" "newline \<notin> set (showNat n)"
  using showNat_digits [of n] nonDigits unfolding list_all_iff by blast+

lemma extractAttrs_skip:
  "CHR ''<'' \<notin> set xs \<Longrightarrow>
     extractAttrs n (xs @ ys) = (xs @ fst (extractAttrs n ys), snd (extractAttrs n ys))"
proof (induction xs)
  case Nil
  show ?case by simp
next
  case (Cons c xs)
  from notin_Cons [OF Cons.prems] Cons.IH show ?case by (simp add: split_beta)
qed

lemma extractAttrs_open:
  "extractAttrs n (CHR ''<'' # CHR ''p'' # CHR ''r'' # CHR ''e'' # CHR ''>'' # rest) =
     (''<pre'' @ attrMarker @ showNat n @ dquote # ''>'' @ fst (extractAttrs (Suc n) rest),
      [] # snd (extractAttrs (Suc n) rest))"
  by (simp add: wordChars split_beta)

lemma extractAttrs_close:
  "extractAttrs n (CHR ''<'' # CHR ''/'' # CHR ''p'' # CHR ''r'' # CHR ''e'' # CHR ''>'' # rest) =
     (''</pre>'' @ fst (extractAttrs n rest), snd (extractAttrs n rest))"
  by (simp add: wordChars split_beta)

lemma extractAttrs_placeholders:
  assumes "CHR ''<'' \<notin> set tail"
  shows "list_all (\<lambda>(s, l, c). separator s) segs \<Longrightarrow>
     extractAttrs n (placeholders n segs tail) = (marked n segs tail, replicate (length segs) [])"
proof (induction segs arbitrary: n)
  case Nil
  from assms show ?case by (simp add: extractAttrs_plain)
next
  case (Cons seg segs)
  obtain s l c where seg: "seg = (s, l, c)" by (cases seg)
  from Cons.prems seg have h: "CHR ''<'' \<notin> set s"
    and r: "list_all (\<lambda>(s, l, c). separator s) segs"
    by (simp_all add: separator_def plainText_def)
  from Cons.IH [OF r, of "Suc n"] h showNat_plain(1) [of n] show ?case
    by (simp add: seg extractAttrs_skip extractAttrs_open extractAttrs_close
        del: extractAttrs.simps)
qed

lemma fixed_no_newline:
  "newline \<notin> set (''<pre'' @ attrMarker @ dquote # ''></pre>'')"
  by code_simp

lemma marked_no_newline:
  assumes "newline \<notin> set tail"
  shows "list_all (\<lambda>(s, l, c). separator s) segs \<Longrightarrow> newline \<notin> set (marked n segs tail)"
proof (induction segs arbitrary: n)
  case Nil
  from assms show ?case by simp
next
  case (Cons seg segs)
  obtain s l c where seg: "seg = (s, l, c)" by (cases seg)
  from Cons.prems seg have h: "newline \<notin> set s"
    and r: "list_all (\<lambda>(s, l, c). separator s) segs"
    by (simp_all add: separator_def plainText_def)
  from fixed_no_newline have "newline \<notin> set ''<pre''" "newline \<notin> set attrMarker"
    "newline \<noteq> dquote" "newline \<notin> set ''>''" "newline \<notin> set ''</pre>''"
    by auto
  with Cons.IH [OF r, of "Suc n"] h showNat_plain(2) [of n] show ?case
    by (simp add: seg)
qed

lemma restoreAttrs_skip:
  "CHR ''<'' \<notin> set xs \<Longrightarrow> restoreAttrs atts (xs @ ys) = xs @ restoreAttrs atts ys"
proof (induction xs)
  case Nil
  show ?case by simp
next
  case (Cons c xs)
  from notin_Cons [OF Cons.prems] Cons.IH show ?case by (simp add: Let_def)
qed

lemma digits_then:
  "\<not> isDigit c \<Longrightarrow> takeWhile isDigit (showNat m @ c # rest) = showNat m"
  "\<not> isDigit c \<Longrightarrow> dropWhile isDigit (showNat m @ c # rest) = c # rest"
  using showNat_digits [of m] by (simp_all add: takeWhile_all dropWhile_all)

lemma restoreAttrs_marked:
  "restoreAttrs atts
     (CHR ''<'' # CHR ''p'' # CHR ''r'' # CHR ''e'' # attrMarker @ showNat m @ dquote # CHR ''>'' # rest)
   = ''<pre'' @ (if m < length atts then atts ! m else ''undefined'') @ ''>'' @ restoreAttrs atts rest"
proof -
  let ?x = "showNat m @ dquote # CHR ''>'' # rest"
  have w: "takeWhile isWord (CHR ''p'' # CHR ''r'' # CHR ''e'' # attrMarker @ ?x) = ''pre''"
    by (simp add: wordChars attrMarker_def)
  have dw: "dropWhile isWord (CHR ''p'' # CHR ''r'' # CHR ''e'' # attrMarker @ ?x) = attrMarker @ ?x"
    by (simp add: wordChars attrMarker_def)
  have d: "takeWhile isDigit ?x = showNat m" "dropWhile isDigit ?x = dquote # CHR ''>'' # rest"
    using digits_then [OF nonDigits(3)] by simp_all
  from showNat_digits [of m] have v: "showNat m \<noteq> []" "decimalValue (showNat m) = m" by simp_all
  have dr: "drop (length attrMarker) (attrMarker @ ?x) = ?x" by simp
  show ?thesis
    apply (subst restoreAttrs.simps)
    apply (simp only: Let_def w dw dr d v)
    apply (simp add: v del: restoreAttrs.simps)
    done
qed

lemma restoreAttrs_close:
  "restoreAttrs atts (CHR ''<'' # CHR ''/'' # CHR ''p'' # CHR ''r'' # CHR ''e'' # CHR ''>'' # rest)
   = ''</pre>'' @ restoreAttrs atts rest"
  by (simp add: wordChars Let_def)

lemma restoreAttrs_marked_document:
  assumes "CHR ''<'' \<notin> set tail"
  shows "list_all (\<lambda>(s, l, c). separator s) segs \<Longrightarrow> n + length segs \<le> k \<Longrightarrow>
     restoreAttrs (replicate k []) (marked n segs tail) = placeholders n segs tail"
proof (induction segs arbitrary: n)
  case Nil
  from assms show ?case by (simp add: restoreAttrs_plain)
next
  case (Cons seg segs)
  obtain s l c where seg: "seg = (s, l, c)" by (cases seg)
  from Cons.prems seg have h: "CHR ''<'' \<notin> set s"
    and r: "list_all (\<lambda>(s, l, c). separator s) segs"
    and k: "Suc n + length segs \<le> k" "n < k"
    by (simp_all add: separator_def plainText_def)
  from Cons.IH [OF r k(1)] h showNat_plain(1) [of n] k(2) show ?case
    by (simp add: seg restoreAttrs_skip restoreAttrs_marked restoreAttrs_close
        del: restoreAttrs.simps)
qed

lemma restorePre_skip:
  "CHR ''<'' \<notin> set xs \<Longrightarrow>
     restorePre ps (xs @ ys) =
       (case restorePre ps ys of Inl e \<Rightarrow> Inl e | Inr out \<Rightarrow> Inr (xs @ out))"
proof (induction xs)
  case Nil
  show ?case by (cases "restorePre ps ys") simp_all
next
  case (Cons c xs)
  from notin_Cons [OF Cons.prems] Cons.IH show ?case
    by (cases "restorePre ps ys") (simp_all add: Let_def)
qed

lemma restorePre_placeholder:
  assumes "i < length ps"
  shows "restorePre ps (CHR ''<'' # CHR ''p'' # CHR ''r'' # CHR ''e'' # CHR ''>'' #
        showNat i @ CHR ''<'' # CHR ''/'' # CHR ''p'' # CHR ''r'' # CHR ''e'' # CHR ''>'' # rest)
     = (case restorePre ps rest of
          Inl e \<Rightarrow> Inl e
        | Inr out \<Rightarrow>
            Inr (''<pre>'' @ stripIndent (snd (ps ! i)) (fst (ps ! i)) @ ''</pre>'' @ out))"
proof -
  let ?x = "showNat i @ CHR ''<'' # CHR ''/'' # CHR ''p'' # CHR ''r'' # CHR ''e'' # CHR ''>'' # rest"
  have dr: "drop 4 (CHR ''p'' # CHR ''r'' # CHR ''e'' # CHR ''>'' # ?x) = ?x" by simp
  have d: "takeWhile isDigit ?x = showNat i"
    "dropWhile isDigit ?x = CHR ''<'' # CHR ''/'' # CHR ''p'' # CHR ''r'' # CHR ''e'' # CHR ''>'' # rest"
    using digits_then [OF nonDigits(1)] by simp_all
  from showNat_digits [of i] have v: "showNat i \<noteq> []" "decimalValue (showNat i) = i" by simp_all
  show ?thesis
    apply (subst restorePre.simps)
    apply (simp only: Let_def dr d v)
    apply (simp add: v assms del: restorePre.simps)
    done
qed

lemma restorePre_placeholders:
  assumes "CHR ''<'' \<notin> set tail"
  shows "list_all (\<lambda>(s, l, c). separator s) segs \<Longrightarrow>
     restorePre (front @ map (\<lambda>(s, l, c). (stripLeadingNewline c, l)) segs)
       (placeholders (length front) segs tail) = Inr (restoredDocument segs tail)"
proof (induction segs arbitrary: front)
  case Nil
  from assms show ?case by (simp add: restorePre_plain)
next
  case (Cons seg segs)
  obtain s l c where seg: "seg = (s, l, c)" by (cases seg)
  from Cons.prems seg have h: "CHR ''<'' \<notin> set s"
    and r: "list_all (\<lambda>(s, l, c). separator s) segs"
    by (simp_all add: separator_def plainText_def)
  let ?f = "\<lambda>(s, l, c). (stripLeadingNewline c, l)"
  from Cons.IH [OF r, of "front @ [?f seg]"]
  have ih: "restorePre (front @ ?f seg # map ?f segs) (placeholders (Suc (length front)) segs tail)
      = Inr (restoredDocument segs tail)"
    by simp
  have i: "length front < length (front @ ?f seg # map ?f segs)" by simp
  have n: "(front @ ?f seg # map ?f segs) ! length front = (stripLeadingNewline c, l)"
    by (simp add: seg)
  from restorePre_placeholder [OF i, of "placeholders (Suc (length front)) segs tail"] ih n h
  show ?case
    by (simp add: seg restorePre_skip del: restorePre.simps)
qed

lemma firstPasses_document:
  assumes segs: "list_all (\<lambda>(s, l, c). separator s \<and> list_all isBlank l
      \<and> findSub ''</pre>'' c = None) segs"
    and tail: "plainText tail"
  shows "compressHTML (preDocument segs tail) =
     Inr (spaceInParagraphs (stripTag ''div'' (stripTag ''span'' (brToNewline
       (restoredDocument segs tail)))))"
proof -
  from tail have t: "CHR ''<'' \<notin> set tail" "newline \<notin> set tail"
    by (simp_all add: plainText_def)
  from segs have seps: "list_all (\<lambda>(s, l, c). separator s) segs"
    by (simp add: list_all_iff split_beta)
  have p1: "extractPre 0 (preDocument segs tail) =
      (placeholders 0 segs tail, map (\<lambda>(s, l, c). (stripLeadingNewline c, l)) segs)"
    using segs t(1) by (rule extractPre_preDocument)
  have p2: "extractAttrs 0 (placeholders 0 segs tail)
      = (marked 0 segs tail, replicate (length segs) [])"
    using t(1) seps by (rule extractAttrs_placeholders)
  have p3: "removeNewlines (marked 0 segs tail) = marked 0 segs tail"
    using marked_no_newline [OF t(2) seps] by (rule removeNewlines_plain)
  have p4: "restoreAttrs (replicate (length segs) []) (marked 0 segs tail)
      = placeholders 0 segs tail"
    using restoreAttrs_marked_document [OF t(1) seps, of 0 "length segs"] by simp
  have p5: "restorePre (map (\<lambda>(s, l, c). (stripLeadingNewline c, l)) segs)
      (placeholders 0 segs tail) = Inr (restoredDocument segs tail)"
    using restorePre_placeholders [OF t(1) seps, of "[]"] by simp
  show ?thesis
    unfolding compressHTML_def p1 Let_def prod.case p2 p3 p4 p5 sum.case
    by (rule refl)
qed

lemma laterPasses_document:
  assumes tail: "CHR ''<'' \<notin> set tail"
  shows "list_all (\<lambda>(s, l, c). CHR ''<'' \<notin> set s \<and> CHR ''<'' \<notin> set c) segs \<Longrightarrow>
     brToNewline (restoredDocument segs tail) = restoredDocument segs tail
     \<and> stripTag ''span'' (restoredDocument segs tail) = restoredDocument segs tail
     \<and> stripTag ''div'' (restoredDocument segs tail) = restoredDocument segs tail
     \<and> findSub ''<p>'' (restoredDocument segs tail) = None"
proof (induction segs)
  case Nil
  from brToNewline_skip [OF tail, of "[]"] stripTag_skip [OF tail, of "''span''" "[]"]
    stripTag_skip [OF tail, of "''div''" "[]"] findSub_absent [OF tail, of "''p>''"]
  show ?case by simp
next
  case (Cons seg segs)
  obtain s l c where seg: "seg = (s, l, c)" by (cases seg)
  from Cons.prems seg have h: "CHR ''<'' \<notin> set s" "CHR ''<'' \<notin> set c"
    and r: "list_all (\<lambda>(s, l, c). CHR ''<'' \<notin> set s \<and> CHR ''<'' \<notin> set c) segs"
    by simp_all
  note x = restored_no_lt [OF h(2), of l]
  from Cons.IH [OF r] h(1) x show ?case
    by (simp add: seg brToNewline_skip stripTag_skip findSub_skip)
qed




section \<open>Properties of the entry point\<close>

lemma compressHTML_heading:
  "list_all (\<lambda>name. compressHTML (''<'' @ name @ ''>Title</'' @ name @ ''>'')
      = Inr (''<'' @ name @ ''>Title</'' @ name @ ''>'')) headerTags"
  by code_simp

text \<open>
  Claim C8. \<^verbatim>\<open>parseHeader\<close> gives the header with the data of the first child when that child
  is a text node with data that is not empty, and the empty object in every other case (no
  child, empty data, a first child that is a tag or of another type); \<^verbatim>\<open>parseNode\<close> returns
  this for the tags \<^verbatim>\<open>h1\<close> to \<^verbatim>\<open>h6\<close>. End to end, for each of the six levels: the normalizer
  leaves \<^verbatim>\<open><hN>Title</hN>\<close> as it is, and when the list linearizer leaves it too, the parser
  gives the heading with its text node, and the block assembler passes a single header
  through, \<^verbatim>\<open>parseHtml\<close> returns the one header with the text \<^verbatim>\<open>Title\<close>.
\<close>

theorem header_contract:
  "(d \<noteq> [] \<longrightarrow> parseHeader (Tag name attrs (Text d # cs)) = HeaderBlock d)
   \<and> parseHeader (Tag name attrs (Text [] # cs)) = EmptyObj
   \<and> parseHeader (Tag name attrs []) = EmptyObj
   \<and> parseHeader (Tag name attrs (Tag n a k # cs)) = EmptyObj
   \<and> parseHeader (Tag name attrs (Other # cs)) = EmptyObj
   \<and> (name \<in> set headerTags \<longrightarrow>
        parseNode (Tag name attrs cs) = Inr (Single (parseHeader (Tag name attrs cs))))
   \<and> (name \<in> set headerTags \<longrightarrow>
        compressHTML (''<'' @ name @ ''>Title</'' @ name @ ''>'')
          = Inr (''<'' @ name @ ''>Title</'' @ name @ ''>''))
   \<and> (name \<in> set headerTags
        \<and> linearizeLists (''<'' @ name @ ''>Title</'' @ name @ ''>'')
            = ''<'' @ name @ ''>Title</'' @ name @ ''>''
        \<and> parseDocument (''<'' @ name @ ''>Title</'' @ name @ ''>'') = [Tag name [] [Text ''Title'']]
        \<and> blockBuilder [HeaderBlock ''Title''] = [HeaderBlock ''Title''] \<longrightarrow>
        parseHtml linearizeLists parseDocument blockBuilder (''<'' @ name @ ''>Title</'' @ name @ ''>'')
          = Inr [HeaderBlock ''Title''])"
proof (intro conjI impI)
  assume "name \<in> set headerTags"
  then show "parseNode (Tag name attrs cs) = Inr (Single (parseHeader (Tag name attrs cs)))"
    by (auto simp: headerTags_def inlineTags_def)
next
  assume "name \<in> set headerTags"
  with compressHTML_heading
  show "compressHTML (''<'' @ name @ ''>Title</'' @ name @ ''>'')
          = Inr (''<'' @ name @ ''>Title</'' @ name @ ''>'')"
    unfolding list_all_iff by blast
next
  assume a: "name \<in> set headerTags
        \<and> linearizeLists (''<'' @ name @ ''>Title</'' @ name @ ''>'')
            = ''<'' @ name @ ''>Title</'' @ name @ ''>''
        \<and> parseDocument (''<'' @ name @ ''>Title</'' @ name @ ''>'') = [Tag name [] [Text ''Title'']]
        \<and> blockBuilder [HeaderBlock ''Title''] = [HeaderBlock ''Title'']"
  then have n: "name \<in> set headerTags" by simp
  with compressHTML_heading
  have c: "compressHTML (''<'' @ name @ ''>Title</'' @ name @ ''>'')
          = Inr (''<'' @ name @ ''>Title</'' @ name @ ''>'')"
    unfolding list_all_iff by blast
  from n have nb: "name \<noteq> ''body''" by (auto simp: headerTags_def)
  from n have p: "parseNode (Tag name [] [Text ''Title'']) = Inr (Single (HeaderBlock ''Title''))"
    by (auto simp: headerTags_def inlineTags_def parseHeader_def)
  from nb have b: "bodyChildren [Tag name [] [Text ''Title'']] = [Tag name [] [Text ''Title'']]"
    by (simp add: bodyChildren_def isBody_def)
  have "collectBlocks [Tag name [] [Text ''Title'']] = Inr [HeaderBlock ''Title'']"
    by (simp add: p pushed_def del: parseNode.simps)
  with a b c show "parseHtml linearizeLists parseDocument blockBuilder
      (''<'' @ name @ ''>Title</'' @ name @ ''>'') = Inr [HeaderBlock ''Title'']"
    unfolding parseHtml_def by (simp only: sum.case)
qed (simp_all add: parseHeader_def)

theorem header_contract_witness:
  "''Title'' \<noteq> []
   \<and> parseHeader (Tag ''h2'' [] [Text ''Title'']) = HeaderBlock ''Title''
   \<and> ''h2'' \<in> set headerTags
   \<and> parseNode (Tag ''h2'' [] [Text ''Title'']) = Inr (Single (HeaderBlock ''Title''))
   \<and> compressHTML ''<h2>Title</h2>'' = Inr ''<h2>Title</h2>''
   \<and> parseHtml (\<lambda>s. s) (\<lambda>s. [Tag ''h2'' [] [Text ''Title'']]) (\<lambda>bs. bs) ''<h2>Title</h2>''
       = Inr [HeaderBlock ''Title'']"
proof -
  have h: "''h2'' \<in> set headerTags" by (simp add: headerTags_def)
  have e: "parseNode (Tag ''h2'' [] [Text ''Title'']) = Inr (Single (HeaderBlock ''Title''))"
    by code_simp
  from header_contract [of "''Title''" "''h2''" "[]" "[]" "[]" "[]" "[]" "\<lambda>s. s"
      "\<lambda>s. [Tag ''h2'' [] [Text ''Title'']]" "\<lambda>bs. bs"] h e
  show ?thesis by (simp del: parseNode.simps)
qed

lemma stripAfterTerminators_Nil: "stripAfterTerminators [] s = s"
  by (induction s) simp_all

lemma stripIndent_Nil: "stripIndent [] s = s"
  by (simp add: stripIndent_def stripAfterTerminators_Nil)

lemma stripLeadingNewline_id: "\<not> prefix [newline] s \<Longrightarrow> stripLeadingNewline s = s"
  by (cases s) (simp_all add: stripLeadingNewline_def)

lemma restoredDocument_as_preDocument:
  "restoredDocument segs tail =
     preDocument (map (\<lambda>(s, l, c). (s, [], stripIndent l (stripLeadingNewline c))) segs) tail"
proof (induction segs)
  case Nil
  show ?case by simp
next
  case (Cons seg segs)
  obtain s l c where seg: "seg = (s, l, c)" by (cases seg)
  from Cons show ?case by (simp add: seg)
qed

lemma restoredDocument_again:
  "list_all (\<lambda>(s, l, c). \<not> prefix [newline] (stripIndent l (stripLeadingNewline c))) segs \<Longrightarrow>
     restoredDocument (map (\<lambda>(s, l, c). (s, [], stripIndent l (stripLeadingNewline c))) segs) tail
       = restoredDocument segs tail"
proof (induction segs)
  case Nil
  show ?case by simp
next
  case (Cons seg segs)
  obtain s l c where seg: "seg = (s, l, c)" by (cases seg)
  from Cons show ?case by (simp add: seg stripIndent_Nil stripLeadingNewline_id)
qed

lemma compressHTML_preDocument:
  assumes segs: "list_all (\<lambda>(s, l, c). separator s \<and> list_all isBlank l \<and> CHR ''<'' \<notin> set c) segs"
    and tail: "plainText tail"
  shows "compressHTML (preDocument segs tail) = Inr (restoredDocument segs tail)"
proof -
  from tail have t': "CHR ''<'' \<notin> set tail" by (simp add: plainText_def)
  from segs have "\<forall>seg \<in> set segs. separator (fst seg) \<and> list_all isBlank (fst (snd seg))
      \<and> CHR ''<'' \<notin> set (snd (snd seg))"
    by (simp add: list_all_iff split_beta)
  then have f: "list_all (\<lambda>(s, l, c). separator s \<and> list_all isBlank l
        \<and> findSub ''</pre>'' c = None) segs"
    and g: "list_all (\<lambda>(s, l, c). CHR ''<'' \<notin> set s \<and> CHR ''<'' \<notin> set c) segs"
    using findSub_absent [of "CHR ''<''" _ "''/pre>''"]
    by (simp_all add: list_all_iff split_beta separator_def plainText_def)
  from laterPasses_document [OF t' g]
  have "spaceInParagraphs (stripTag ''div'' (stripTag ''span'' (brToNewline
      (restoredDocument segs tail)))) = restoredDocument segs tail"
    by (subst spaceInParagraphs.simps) simp
  with firstPasses_document [OF f tail] show ?thesis by simp
qed

lemma compressHTML_restoredDocument:
  assumes segs: "list_all (\<lambda>(s, l, c). separator s \<and> list_all isBlank l \<and> CHR ''<'' \<notin> set c
      \<and> \<not> prefix [newline] (stripIndent l (stripLeadingNewline c))) segs"
    and tail: "plainText tail"
  shows "compressHTML (restoredDocument segs tail) = Inr (restoredDocument segs tail)"
proof -
  let ?f = "\<lambda>(s, l, c). (s, [], stripIndent l (stripLeadingNewline c))"
  from segs have a: "\<forall>seg \<in> set segs. separator (fst seg)
      \<and> CHR ''<'' \<notin> set (stripIndent (fst (snd seg)) (stripLeadingNewline (snd (snd seg))))"
    and n: "list_all (\<lambda>(s, l, c). \<not> prefix [newline] (stripIndent l (stripLeadingNewline c))) segs"
    using restored_no_lt by (simp_all add: list_all_iff split_beta)
  from a have "list_all (\<lambda>(s, l, c). separator s \<and> list_all isBlank l \<and> CHR ''<'' \<notin> set c)
      (map ?f segs)"
    by (simp add: list_all_iff split_beta)
  from compressHTML_preDocument [OF this tail]
  show ?thesis
    by (simp only: restoredDocument_as_preDocument [symmetric] restoredDocument_again [OF n])
qed

text \<open>
  Claim C7, as the code has it: when normalizing the normalized form of an input gives that
  form again, the conversion of the normalized form is the conversion of the input, whatever
  the list linearizer, the parser and the block assembler are. This is so for a text without
  \<^verbatim>\<open><\<close> and without a line feed, which the normalizer leaves as it is, and for a document
  of \<^verbatim>\<open><pre>\<close> blocks with plain text between them, whose contents have no \<^verbatim>\<open><\<close> and do not
  start with a line feed once restored: its normalized form is normalized to itself.
\<close>

theorem renormalizing_a_fixed_point:
  "(compressHTML h = Inr n \<and> compressHTML n = Inr n \<longrightarrow>
      parseHtml linearizeLists parseDocument blockBuilder n
        = parseHtml linearizeLists parseDocument blockBuilder h)
   \<and> (plainText t \<longrightarrow> compressHTML t = Inr t)
   \<and> (list_all (\<lambda>(s, l, c). separator s \<and> list_all isBlank l \<and> CHR ''<'' \<notin> set c
          \<and> \<not> prefix [newline] (stripIndent l (stripLeadingNewline c))) segs
        \<and> plainText tail \<longrightarrow>
      compressHTML (preDocument segs tail) = Inr (restoredDocument segs tail)
      \<and> compressHTML (restoredDocument segs tail) = Inr (restoredDocument segs tail)
      \<and> parseHtml linearizeLists parseDocument blockBuilder (restoredDocument segs tail)
        = parseHtml linearizeLists parseDocument blockBuilder (preDocument segs tail))"
proof (intro conjI impI)
  assume "compressHTML h = Inr n \<and> compressHTML n = Inr n"
  then show "parseHtml linearizeLists parseDocument blockBuilder n
        = parseHtml linearizeLists parseDocument blockBuilder h"
    by (simp add: parseHtml_def)
next
  assume "plainText t"
  then show "compressHTML t = Inr t" by (simp add: compressHTML_plain plainText_def)
next
  assume a: "list_all (\<lambda>(s, l, c). separator s \<and> list_all isBlank l \<and> CHR ''<'' \<notin> set c
          \<and> \<not> prefix [newline] (stripIndent l (stripLeadingNewline c))) segs
        \<and> plainText tail"
  then have t: "plainText tail"
    and f: "list_all (\<lambda>(s, l, c). separator s \<and> list_all isBlank l \<and> CHR ''<'' \<notin> set c
          \<and> \<not> prefix [newline] (stripIndent l (stripLeadingNewline c))) segs"
    by simp_all
  from f have g: "list_all (\<lambda>(s, l, c). separator s \<and> list_all isBlank l \<and> CHR ''<'' \<notin> set c) segs"
    by (simp add: list_all_iff split_beta)
  show p: "compressHTML (preDocument segs tail) = Inr (restoredDocument segs tail)"
    using g t by (rule compressHTML_preDocument)
  show q: "compressHTML (restoredDocument segs tail) = Inr (restoredDocument segs tail)"
    using f t by (rule compressHTML_restoredDocument)
  from p q show "parseHtml linearizeLists parseDocument blockBuilder (restoredDocument segs tail)
        = parseHtml linearizeLists parseDocument blockBuilder (preDocument segs tail)"
    by (simp add: parseHtml_def)
qed

theorem renormalizing_a_fixed_point_witness:
  "compressHTML ''<p>Hello<b>world</b></p>'' = Inr ''<p>Hello <b>world</b></p>''
   \<and> compressHTML ''<p>Hello <b>world</b></p>'' = Inr ''<p>Hello <b>world</b></p>''
   \<and> parseHtml (\<lambda>s. s)
        (tableParser [(''<p>Hello <b>world</b></p>'',
           [Tag ''p'' [] [Text ''Hello '', Tag ''b'' [] [Text ''world'']]])])
        (\<lambda>bs. bs) ''<p>Hello <b>world</b></p>''
     = parseHtml (\<lambda>s. s)
        (tableParser [(''<p>Hello <b>world</b></p>'',
           [Tag ''p'' [] [Text ''Hello '', Tag ''b'' [] [Text ''world'']]])])
        (\<lambda>bs. bs) ''<p>Hello<b>world</b></p>''
   \<and> plainText ''Hello world''
   \<and> compressHTML ''Hello world'' = Inr ''Hello world''
   \<and> list_all (\<lambda>(s, l, c). separator s \<and> list_all isBlank l \<and> CHR ''<'' \<notin> set c
          \<and> \<not> prefix [newline] (stripIndent l (stripLeadingNewline c)))
        [(''a'', ''  '', newline # ''  x'')]
   \<and> plainText ''c''
   \<and> compressHTML (preDocument [(''a'', ''  '', newline # ''  x'')] ''c'')
       = Inr (restoredDocument [(''a'', ''  '', newline # ''  x'')] ''c'')
   \<and> compressHTML (restoredDocument [(''a'', ''  '', newline # ''  x'')] ''c'')
       = Inr (restoredDocument [(''a'', ''  '', newline # ''  x'')] ''c'')
   \<and> restoredDocument [(''a'', ''  '', newline # ''  x'')] ''c'' = ''a<pre>x</pre>c''"
proof -
  have h: "compressHTML ''<p>Hello<b>world</b></p>'' = Inr ''<p>Hello <b>world</b></p>''
      \<and> compressHTML ''<p>Hello <b>world</b></p>'' = Inr ''<p>Hello <b>world</b></p>''"
    by code_simp
  have k: "plainText ''Hello world''"
    by code_simp
  have m: "list_all (\<lambda>(s, l, c). separator s \<and> list_all isBlank l \<and> CHR ''<'' \<notin> set c
          \<and> \<not> prefix [newline] (stripIndent l (stripLeadingNewline c)))
        [(''a'', ''  '', newline # ''  x'')] \<and> plainText ''c''"
    by code_simp
  have r: "restoredDocument [(''a'', ''  '', newline # ''  x'')] ''c'' = ''a<pre>x</pre>c''"
    by code_simp
  from renormalizing_a_fixed_point [where h = "''<p>Hello<b>world</b></p>''"
      and n = "''<p>Hello <b>world</b></p>''" and linearizeLists = "\<lambda>s. s"
      and parseDocument = "tableParser [(''<p>Hello <b>world</b></p>'',
           [Tag ''p'' [] [Text ''Hello '', Tag ''b'' [] [Text ''world'']]])]"
      and blockBuilder = "\<lambda>bs. bs" and t = "''Hello world''"
      and segs = "[(''a'', ''  '', newline # ''  x'')]" and tail = "''c''"] h k m r
  show ?thesis by blast
qed

text \<open>
  Claim C7 as stated fails at \<^verbatim>\<open><p>a<br>b</p>\<close>: the normalizer turns the \<^verbatim>\<open><br>\<close> into a line
  feed, and normalizing again removes the line feed, so the conversion of the input gives a
  section with the text \<^verbatim>\<open>a\nb\<close> and the conversion of the normalized form one with the text
  \<^verbatim>\<open>ab\<close>. The parser is given by what it returns on the two normalized strings (a paragraph
  with one text node); the other two collaborators leave their argument as it is.
\<close>

theorem renormalizing_changes_output_counterexample:
  "compressHTML ''<p>a<br>b</p>'' = Inr (''<p>a'' @ newline # ''b</p>'')
   \<and> compressHTML (''<p>a'' @ newline # ''b</p>'') = Inr ''<p>ab</p>''
   \<and> parseHtml (\<lambda>s. s)
        (tableParser [(''<p>a'' @ newline # ''b</p>'', [Tag ''p'' [] [Text (''a'' @ newline # ''b'')]]),
                      (''<p>ab</p>'', [Tag ''p'' [] [Text ''ab'']])])
        (\<lambda>bs. bs) ''<p>a<br>b</p>''
     = Inr [RichTextSection [Element (RichText (''a'' @ newline # ''b'') None)]]
   \<and> parseHtml (\<lambda>s. s)
        (tableParser [(''<p>a'' @ newline # ''b</p>'', [Tag ''p'' [] [Text (''a'' @ newline # ''b'')]]),
                      (''<p>ab</p>'', [Tag ''p'' [] [Text ''ab'']])])
        (\<lambda>bs. bs) (''<p>a'' @ newline # ''b</p>'')
     = Inr [RichTextSection [Element (RichText ''ab'' None)]]"
  by code_simp

end
